theory Spec2Isabelle
  imports Main "HOL-Library.Word"
begin

unbundle bit_operations_syntax

section \<open>Bytes, scripts and opcodes\<close>

text \<open>
  A script is a vector of unsigned char: a list of 8-bit words. An iterator into a
  script is modelled by the suffix of the script that starts at the iterator.
\<close>

type_synonym byte = "8 word"
type_synonym valtype = "byte list"

text \<open>
  Modelled from the spec: the opcode constants of script.hpp (section 3 of the spec gives
  the values; the three OP_PUSHDATA opcodes and OP_INVALIDOPCODE carry their values of
  the Bitcoin script language).
\<close>

definition OP_0 :: byte where "OP_0 = 0x00"
definition OP_PUSHDATA1 :: byte where "OP_PUSHDATA1 = 0x4c"
definition OP_PUSHDATA2 :: byte where "OP_PUSHDATA2 = 0x4d"
definition OP_PUSHDATA4 :: byte where "OP_PUSHDATA4 = 0x4e"
definition OP_1 :: byte where "OP_1 = 0x51"
definition OP_16 :: byte where "OP_16 = 0x60"
definition OP_RETURN :: byte where "OP_RETURN = 0x6a"
definition OP_DUP :: byte where "OP_DUP = 0x76"
definition OP_EQUAL :: byte where "OP_EQUAL = 0x87"
definition OP_EQUALVERIFY :: byte where "OP_EQUALVERIFY = 0x88"
definition OP_HASH160 :: byte where "OP_HASH160 = 0xa9"
definition OP_CHECKSIG :: byte where "OP_CHECKSIG = 0xac"
definition OP_CHECKMULTISIG :: byte where "OP_CHECKMULTISIG = 0xae"
definition OP_INVALIDOPCODE :: byte where "OP_INVALIDOPCODE = 0xff"

lemmas opcode_defs = OP_0_def OP_PUSHDATA1_def OP_PUSHDATA2_def OP_PUSHDATA4_def OP_1_def
  OP_16_def OP_RETURN_def OP_DUP_def OP_EQUAL_def OP_EQUALVERIFY_def OP_HASH160_def
  OP_CHECKSIG_def OP_CHECKMULTISIG_def OP_INVALIDOPCODE_def

text \<open>
  Modelled from the spec: DecodeOP_N, EncodeOP_N and EncodePushBytes_N of script.hpp
  (section 4.D: decode_op_n(op) = op - OP_1 + 1, with OP_0 decoding to 0;
  encode_op_n(n) = OP_1 + n - 1 for n in 1..16; encode_push_bytes_n(n) = n).
\<close>

definition DecodeOP_N :: "byte \<Rightarrow> nat" where
  "DecodeOP_N opcode = (if opcode = OP_0 then 0 else unat opcode - (unat OP_1 - 1))"

definition EncodeOP_N :: "nat \<Rightarrow> byte" where
  "EncodeOP_N n = (if n = 0 then OP_0 else of_nat (unat OP_1 + n - 1))"

definition EncodePushBytes_N :: "nat \<Rightarrow> byte" where
  "EncodePushBytes_N n = of_nat n"

text \<open>Little-endian length fields of OP_PUSHDATA1/2/4.\<close>

fun ReadLE :: "byte list \<Rightarrow> nat" where
  "ReadLE [] = 0"
| "ReadLE (b # bs) = unat b + 256 * ReadLE bs"

text \<open>
  Modelled from the spec: GetScriptOp of script.hpp (section 4.D, read_op): reads one
  opcode; the opcodes 0x01..0x4b push that many bytes, OP_PUSHDATA1/2/4 read a 1/2/4-byte
  little-endian length and then that many bytes. The result is the opcode, the pushed
  bytes and the iterator after the instruction; \<open>None\<close> is the failing read (nothing
  left to read, or a push that runs past the end).
\<close>

definition GetScriptOp :: "byte list \<Rightarrow> (byte \<times> valtype \<times> byte list) option" where
  "GetScriptOp pc =
     (case pc of
        [] \<Rightarrow> None
      | opcode # pc1 \<Rightarrow>
          if opcode \<le> OP_PUSHDATA4 then
            (let hdr = (if opcode < OP_PUSHDATA1 then 0
                        else if opcode = OP_PUSHDATA1 then 1
                        else if opcode = OP_PUSHDATA2 then 2 else 4)
             in if length pc1 < hdr then None
                else
                  (let nSize = (if opcode < OP_PUSHDATA1 then unat opcode
                                else ReadLE (take hdr pc1));
                       pc2 = drop hdr pc1
                   in if length pc2 < nSize then None
                      else Some (opcode, take nSize pc2, drop nSize pc2)))
          else Some (opcode, [], pc1))"

section \<open>Public keys and script kinds\<close>

definition CPubKey_SIZE :: nat where "CPubKey_SIZE = 65"
definition CPubKey_COMPRESSED_SIZE :: nat where "CPubKey_COMPRESSED_SIZE = 33"

definition GetLen :: "byte \<Rightarrow> nat" where
  "GetLen chHeader =
     (if chHeader = 2 \<or> chHeader = 3 then CPubKey_COMPRESSED_SIZE
      else if chHeader = 4 \<or> chHeader = 6 \<or> chHeader = 7 then CPubKey_SIZE
      else 0)"

definition ValidSize :: "valtype \<Rightarrow> bool" where
  "ValidSize vch = (length vch > 0 \<and> GetLen (hd vch) = length vch)"

datatype TxoutType =
    NONSTANDARD
  | PUBKEY
  | PUBKEYHASH
  | SCRIPTHASH
  | MULTISIG
  | NULL_DATA
  | WITNESS_V0_SCRIPTHASH
  | WITNESS_V0_KEYHASH
  | WITNESS_V1_TAPROOT
  | WITNESS_UNKNOWN

definition BECH32_WITNESS_PROG_MAX_LEN :: nat where "BECH32_WITNESS_PROG_MAX_LEN = 40"
definition WITNESS_V0_SCRIPTHASH_SIZE :: nat where "WITNESS_V0_SCRIPTHASH_SIZE = 32"
definition WITNESS_V0_KEYHASH_SIZE :: nat where "WITNESS_V0_KEYHASH_SIZE = 20"
definition WITNESS_V1_TAPROOT_SIZE :: nat where "WITNESS_V1_TAPROOT_SIZE = 32"

lemmas size_defs = CPubKey_SIZE_def CPubKey_COMPRESSED_SIZE_def BECH32_WITNESS_PROG_MAX_LEN_def
  WITNESS_V0_SCRIPTHASH_SIZE_def WITNESS_V0_KEYHASH_SIZE_def WITNESS_V1_TAPROOT_SIZE_def

section \<open>The script templates\<close>

text \<open>
  The matchers return their out-parameter with the verdict: \<open>Some\<close> of the payload when
  the C++ function returns true, \<open>None\<close> when it returns false (Solver reads the
  out-parameters only after a true verdict).
\<close>

definition MatchPayToPubkey :: "byte list \<Rightarrow> valtype option" where
  "MatchPayToPubkey script =
     (if length script = CPubKey_SIZE + 2 \<and> unat (script ! 0) = CPubKey_SIZE
         \<and> last script = OP_CHECKSIG
      then (let pubkey = take CPubKey_SIZE (drop 1 script)
            in if ValidSize pubkey then Some pubkey else None)
      else if length script = CPubKey_COMPRESSED_SIZE + 2
         \<and> unat (script ! 0) = CPubKey_COMPRESSED_SIZE \<and> last script = OP_CHECKSIG
      then (let pubkey = take CPubKey_COMPRESSED_SIZE (drop 1 script)
            in if ValidSize pubkey then Some pubkey else None)
      else None)"

definition MatchPayToPubkeyHash :: "byte list \<Rightarrow> valtype option" where
  "MatchPayToPubkeyHash script =
     (if length script = 25 \<and> script ! 0 = OP_DUP \<and> script ! 1 = OP_HASH160
         \<and> script ! 2 = 20 \<and> script ! 23 = OP_EQUALVERIFY \<and> script ! 24 = OP_CHECKSIG
      then Some (take 20 (drop 3 script))
      else None)"

definition IsSmallInteger :: "byte \<Rightarrow> bool" where
  "IsSmallInteger opcode = (opcode \<ge> OP_1 \<and> opcode \<le> OP_16)"

lemma GetScriptOp_shorter:
  "GetScriptOp pc = Some (opcode, data, pc') \<Longrightarrow> length pc' < length pc"
  by (auto simp: GetScriptOp_def Let_def split: list.splits if_splits)

text \<open>
  The key-collecting loop of MatchMultisig. It returns the keys collected, the opcode
  last read and the iterator. A failing read leaves OP_INVALIDOPCODE as the opcode.
\<close>

function MatchMultisig_loop :: "byte list \<Rightarrow> valtype list \<Rightarrow> valtype list \<times> byte \<times> byte list" where
  "MatchMultisig_loop it pubkeys =
     (case GetScriptOp it of
        None \<Rightarrow> (pubkeys, OP_INVALIDOPCODE, it)
      | Some (opcode, data, it') \<Rightarrow>
          if ValidSize data
          then MatchMultisig_loop it' (pubkeys @ [data])
          else (pubkeys, opcode, it'))"
  by pat_completeness auto
termination
  by (relation "measure (\<lambda>(it, pubkeys). length it)") (auto dest: GetScriptOp_shorter)

declare MatchMultisig_loop.simps [simp del]

definition MatchMultisig :: "byte list \<Rightarrow> (nat \<times> valtype list) option" where
  "MatchMultisig script =
     (if length script < 1 \<or> last script \<noteq> OP_CHECKMULTISIG then None
      else
        (case GetScriptOp script of
           None \<Rightarrow> None
         | Some (opcode, data, it) \<Rightarrow>
             if \<not> IsSmallInteger opcode then None
             else
               (let required = DecodeOP_N opcode;
                    (pubkeys, opcode', it') = MatchMultisig_loop it []
                in if \<not> IsSmallInteger opcode' then None
                   else
                     (let keys = DecodeOP_N opcode'
                      in if length pubkeys \<noteq> keys \<or> keys < required then None
                         else if length it' = 1 then Some (required, pubkeys)
                         else None))))"

definition IsPayToScriptHash :: "byte list \<Rightarrow> bool" where
  "IsPayToScriptHash scriptHash =
     (length scriptHash = 23 \<and> scriptHash ! 0 = OP_HASH160 \<and> scriptHash ! 1 = 0x14
      \<and> scriptHash ! 22 = OP_EQUAL)"

definition IsPayToWitnessScriptHash :: "byte list \<Rightarrow> bool" where
  "IsPayToWitnessScriptHash scriptHash =
     (length scriptHash = 34 \<and> scriptHash ! 0 = OP_0 \<and> scriptHash ! 1 = 0x20)"

definition IsWitnessProgram :: "byte list \<Rightarrow> (nat \<times> byte list) option" where
  "IsWitnessProgram scriptHash =
     (if length scriptHash < 4 \<or> length scriptHash > 42 then None
      else if scriptHash ! 0 \<noteq> OP_0 \<and> (scriptHash ! 0 < OP_1 \<or> scriptHash ! 0 > OP_16) then None
      else if unat (scriptHash ! 1) + 2 = length scriptHash
      then Some (DecodeOP_N (scriptHash ! 0), drop 2 scriptHash)
      else None)"

function IsPushOnly :: "byte list \<Rightarrow> bool" where
  "IsPushOnly pc =
     (if pc = [] then True
      else
        (case GetScriptOp pc of
           None \<Rightarrow> False
         | Some (opcode, data, pc') \<Rightarrow>
             if opcode > OP_16 then False
             else IsPushOnly pc'))"
  by pat_completeness auto
termination
  by (relation "measure length") (auto dest: GetScriptOp_shorter)

declare IsPushOnly.simps [simp del]

section \<open>Solver\<close>

definition Solver :: "byte list \<Rightarrow> TxoutType \<times> valtype list" where
  "Solver scriptPubKey =
     (if IsPayToScriptHash scriptPubKey
      then (SCRIPTHASH, [take 20 (drop 2 scriptPubKey)])
      else
        (case IsWitnessProgram scriptPubKey of
           Some (witnessversion, witnessprogram) \<Rightarrow>
             if witnessversion = 0 \<and> length witnessprogram = WITNESS_V0_KEYHASH_SIZE
             then (WITNESS_V0_KEYHASH, [witnessprogram])
             else if witnessversion = 0 \<and> length witnessprogram = WITNESS_V0_SCRIPTHASH_SIZE
             then (WITNESS_V0_SCRIPTHASH, [witnessprogram])
             else if witnessversion = 1 \<and> length witnessprogram = WITNESS_V1_TAPROOT_SIZE
             then (WITNESS_V1_TAPROOT, [witnessprogram])
             else if witnessversion \<noteq> 0
             then (WITNESS_UNKNOWN, [[of_nat witnessversion], witnessprogram])
             else (NONSTANDARD, [])
         | None \<Rightarrow>
             if length scriptPubKey \<ge> 1 \<and> scriptPubKey ! 0 = OP_RETURN
                \<and> IsPushOnly (drop 1 scriptPubKey)
             then (NULL_DATA, [])
             else
               (case MatchPayToPubkey scriptPubKey of
                  Some data \<Rightarrow> (PUBKEY, [data])
                | None \<Rightarrow>
                    (case MatchPayToPubkeyHash scriptPubKey of
                       Some data \<Rightarrow> (PUBKEYHASH, [data])
                     | None \<Rightarrow>
                         (case MatchMultisig scriptPubKey of
                            Some (required, keys) \<Rightarrow>
                              (MULTISIG,
                               [[of_nat required]] @ keys @ [[of_nat (length keys)]])
                          | None \<Rightarrow> (NONSTANDARD, []))))))"

section \<open>ConvertBits\<close>

text \<open>
  The template parameters frombits, tobits and pad are arguments; the output functor is
  the list of the values it was called with, in order. The accumulator and the bit count
  are size_t: the mask max_acc keeps the accumulator below 2^(frombits + tobits - 1), so
  for the widths up to 8 no shift leaves 32 bits and the natural numbers model them
  exactly. The call returns its verdict and the emitted values; \<open>None\<close> is a call that
  does not return: with tobits = 0 the inner loop \<^verbatim>\<open>while (bits >= tobits)\<close> never exits.
\<close>

definition ConvertBits_maxv :: "nat \<Rightarrow> nat" where
  "ConvertBits_maxv tobits = 2 ^ tobits - 1"

definition ConvertBits_max_acc :: "nat \<Rightarrow> nat \<Rightarrow> nat" where
  "ConvertBits_max_acc frombits tobits = 2 ^ (frombits + tobits - 1) - 1"

function ConvertBits_inner :: "nat \<Rightarrow> nat \<Rightarrow> nat \<Rightarrow> nat list \<Rightarrow> (nat \<times> nat list) option" where
  "ConvertBits_inner tobits acc bits out =
     (if tobits = 0 then None
      else if bits \<ge> tobits
      then ConvertBits_inner tobits acc (bits - tobits)
             (out @ [drop_bit (bits - tobits) acc AND ConvertBits_maxv tobits])
      else Some (bits, out))"
  by pat_completeness auto
termination
  by (relation "measure (\<lambda>(tobits, acc, bits, out). bits)") auto

declare ConvertBits_inner.simps [simp del]

fun ConvertBits_outer ::
  "nat \<Rightarrow> nat \<Rightarrow> nat \<Rightarrow> nat \<Rightarrow> nat list \<Rightarrow> nat list \<Rightarrow> (nat \<times> nat \<times> nat list) option" where
  "ConvertBits_outer frombits tobits acc bits out [] = Some (acc, bits, out)"
| "ConvertBits_outer frombits tobits acc bits out (v # it) =
     (let acc' = (push_bit frombits acc OR v) AND ConvertBits_max_acc frombits tobits
      in case ConvertBits_inner tobits acc' (bits + frombits) out of
           None \<Rightarrow> None
         | Some (bits', out') \<Rightarrow> ConvertBits_outer frombits tobits acc' bits' out' it)"

definition ConvertBits :: "nat \<Rightarrow> nat \<Rightarrow> bool \<Rightarrow> nat list \<Rightarrow> (bool \<times> nat list) option" where
  "ConvertBits frombits tobits pad input =
     (case ConvertBits_outer frombits tobits 0 0 [] input of
        None \<Rightarrow> None
      | Some (acc, bits, out) \<Rightarrow>
          if pad
          then Some (True,
                 if bits \<noteq> 0
                 then out @ [push_bit (tobits - bits) acc AND ConvertBits_maxv tobits]
                 else out)
          else if bits \<ge> frombits
                  \<or> (push_bit (tobits - bits) acc AND ConvertBits_maxv tobits) \<noteq> 0
          then Some (False, out)
          else Some (True, out))"

text \<open>
  Every call site passes the functor that appends its argument, cast to unsigned char, to
  a byte vector \<open>data\<close>, and a range of bytes. The result is the verdict and the vector
  after the call. The \<open>None\<close> case does not arise at the widths 8 and 5 of the call sites
  (lemma \<open>ConvertBits_returns\<close> below).
\<close>

definition ConvertBits_push :: "nat \<Rightarrow> nat \<Rightarrow> bool \<Rightarrow> byte list \<Rightarrow> byte list \<Rightarrow> bool \<times> byte list" where
  "ConvertBits_push frombits tobits pad data input =
     (case ConvertBits frombits tobits pad (map unat input) of
        Some (ok, out) \<Rightarrow> (ok, data @ map of_nat out)
      | None \<Rightarrow> (False, data))"

section \<open>Network parameters and the encoding library\<close>

text \<open>
  Modelled from the spec: Params of chain.hpp (section 3: the Base58 prefixes, looked up
  by kind, and the Bech32 human-readable prefix).
\<close>

datatype base58_type = PUBKEY_ADDRESS | SCRIPT_ADDRESS

record Params =
  base58Prefixes :: "base58_type \<Rightarrow> byte list"
  bech32_hrp :: string

text \<open>
  The Base58 and Bech32 functions of base58.hpp and bech32.hpp are not part of the
  sources at hand. The address codec takes them as a parameter, a record of functions,
  so that what is proved of the codec for every such record holds for the real library.
  A decoder that fails returns \<open>None\<close>; the result of the Bech32 decoder is the struct
  with the fields encoding, hrp and data (here \<open>dec_encoding\<close>, \<open>dec_hrp\<close>, \<open>dec_data\<close>).
\<close>

datatype Encoding = INVALID | BECH32 | BECH32M

record DecodeResult =
  dec_encoding :: Encoding
  dec_hrp :: string
  dec_data :: "byte list"

record library =
  EncodeBase58Check :: "byte list \<Rightarrow> string"
  DecodeBase58Check :: "string \<Rightarrow> nat \<Rightarrow> byte list option"
  DecodeBase58 :: "string \<Rightarrow> nat \<Rightarrow> byte list option"
  bech32_Encode :: "Encoding \<Rightarrow> string \<Rightarrow> byte list \<Rightarrow> string"
  bech32_Decode :: "string \<Rightarrow> DecodeResult"

text \<open>
  Modelled from the spec: ToLower of bech32.hpp (section 4.F, the network-match hint
  lowercases the prefix of the text): the ASCII letters A..Z become a..z.
\<close>

definition LowerCase :: "char \<Rightarrow> char" where
  "LowerCase c = (if 65 \<le> (of_char c :: nat) \<and> (of_char c :: nat) \<le> 90
                  then char_of ((of_char c :: nat) + 32) else c)"

definition ToLower :: "string \<Rightarrow> string" where
  "ToLower str = map LowerCase str"

text \<open>std::to_string of a size: the decimal digits.\<close>

function to_string :: "nat \<Rightarrow> string" where
  "to_string n =
     (if n < 10 then [char_of (48 + n)]
      else to_string (n div 10) @ [char_of (48 + n mod 10)])"
  by pat_completeness auto
termination
  by (relation "measure id") auto

declare to_string.simps [simp del]

text \<open>std::vector::insert of a range before the position \<open>pos\<close>.\<close>

definition vector_insert :: "nat \<Rightarrow> 'a list \<Rightarrow> 'a list \<Rightarrow> 'a list" where
  "vector_insert pos xs v = take pos v @ xs @ drop pos v"

section \<open>ExtractDestination\<close>

text \<open>
  The output parameter addressRet is an argument and comes back with the verdict. The
  loop of the MULTISIG branch runs over the indices 1 .. size - 2 of the solutions.
\<close>

definition ExtractDestination_multisig ::
  "library \<Rightarrow> Params \<Rightarrow> valtype list \<Rightarrow> string list \<Rightarrow> string list" where
  "ExtractDestination_multisig L params vSolutions addressRet =
     fold (\<lambda>i ret.
             if length (vSolutions ! i) = 0 then ret
             else ret @ [EncodeBase58Check L
                           (base58Prefixes params PUBKEY_ADDRESS @ vSolutions ! i)])
          [1 ..< length vSolutions - 1] addressRet"

definition ExtractDestination ::
  "library \<Rightarrow> byte list \<Rightarrow> Params \<Rightarrow> string list \<Rightarrow> bool \<times> string list" where
  "ExtractDestination L scriptPubKey params addressRet =
     (let (whichType, vSolutions) = Solver scriptPubKey
      in if whichType = PUBKEY then
           (if length (vSolutions ! 0) = 0 then (False, addressRet)
            else
              (let data = base58Prefixes params PUBKEY_ADDRESS @ vSolutions ! 0
               in (True, addressRet @ [EncodeBase58Check L data])))
         else if whichType = PUBKEYHASH then
           (let data = base58Prefixes params PUBKEY_ADDRESS @ take 20 (vSolutions ! 0)
            in (True, addressRet @ [EncodeBase58Check L data]))
         else if whichType = SCRIPTHASH then
           (let data = base58Prefixes params SCRIPT_ADDRESS @ take 20 (vSolutions ! 0)
            in (True, addressRet @ [EncodeBase58Check L data]))
         else if whichType = WITNESS_V0_KEYHASH then
           (let data = snd (ConvertBits_push 8 5 True [0] (vSolutions ! 0))
            in (True, addressRet @ [bech32_Encode L BECH32 (bech32_hrp params) data]))
         else if whichType = WITNESS_V0_SCRIPTHASH then
           (let data = snd (ConvertBits_push 8 5 True [0] (vSolutions ! 0))
            in (True, addressRet @ [bech32_Encode L BECH32 (bech32_hrp params) data]))
         else if whichType = WITNESS_V1_TAPROOT then
           (let data = snd (ConvertBits_push 8 5 True [1] (vSolutions ! 0))
            in (True, addressRet @ [bech32_Encode L BECH32M (bech32_hrp params) data]))
         else if whichType = WITNESS_UNKNOWN then
           (let version = unat (vSolutions ! 0 ! 0);
                len = length (vSolutions ! 1)
            in if version < 1 \<or> version > 16 \<or> len < 2 \<or> len > 40 then (False, addressRet)
               else
                 (let data = snd (ConvertBits_push 8 5 True [of_nat version]
                                    (take len (vSolutions ! 1)))
                  in (True, addressRet @ [bech32_Encode L BECH32M (bech32_hrp params) data])))
         else if whichType = MULTISIG then
           (let addressRet' = ExtractDestination_multisig L params vSolutions addressRet
            in if addressRet' = [] then (False, addressRet') else (False, addressRet'))
         else (False, addressRet))"

section \<open>DecodeDestination\<close>

text \<open>
  The output parameters script and error_str come back with the verdict; error_str is
  cleared on entry, so it is no argument. The Bech32 half of the function is a definition
  of its own.
\<close>

definition DecodeDestination_bech32 ::
  "library \<Rightarrow> string \<Rightarrow> byte list \<Rightarrow> Params \<Rightarrow> bool \<times> byte list \<times> string" where
  "DecodeDestination_bech32 L str script params =
     (let dec = bech32_Decode L str
      in if dec_encoding dec = BECH32 \<or> dec_encoding dec = BECH32M then
           (if dec_data dec = [] then (False, script, ''Empty Bech32 data section'')
            else if dec_hrp dec \<noteq> bech32_hrp params then
              (False, script,
               ''Invalid or unsupported prefix for Segwit (Bech32) address (expected ''
                 @ bech32_hrp params @ '', got '' @ dec_hrp dec @ '').'')
            else
              (let version = unat (dec_data dec ! 0)
               in if version = 0 \<and> dec_encoding dec \<noteq> BECH32 then
                    (False, script, ''Version 0 witness address must use Bech32 checksum'')
                  else if version \<noteq> 0 \<and> dec_encoding dec \<noteq> BECH32M then
                    (False, script, ''Version 1+ witness address must use Bech32m checksum'')
                  else
                    (let (ok, data) = ConvertBits_push 5 8 False [] (drop 1 (dec_data dec))
                     in if ok then
                          (let byte_str = (if length data = 1 then ''byte'' else ''bytes'')
                           in if version = 0 then
                                (if length data = 20 then
                                   (True,
                                    vector_insert 2 data (script @ [OP_0, EncodePushBytes_N 20]),
                                    [])
                                 else if length data = 32 then
                                   (True,
                                    vector_insert 2 data (script @ [OP_0, EncodePushBytes_N 32]),
                                    [])
                                 else
                                   (False, script,
                                    ''Invalid Bech32 v0 address program size (''
                                      @ to_string (length data) @ '' '' @ byte_str
                                      @ ''), per BIP141''))
                              else if version = 1 \<and> length data = WITNESS_V1_TAPROOT_SIZE then
                                (True,
                                 vector_insert 2 data (script @ [OP_1, EncodePushBytes_N 32]),
                                 [])
                              else if version > 16 then
                                (False, script, ''Invalid Bech32 address witness version'')
                              else if length data < 2 \<or> length data > BECH32_WITNESS_PROG_MAX_LEN then
                                (False, script,
                                 ''Invalid Bech32 address program size (''
                                   @ to_string (length data) @ '' '' @ byte_str @ '')'')
                              else
                                (True,
                                 vector_insert 1 data (script @ [EncodeOP_N version]),
                                 []))
                        else (False, script, ''Invalid padding in Bech32 data section''))))
         else (False, script, ''Invalid address''))"

definition DecodeDestination ::
  "library \<Rightarrow> string \<Rightarrow> byte list \<Rightarrow> Params \<Rightarrow> bool \<times> byte list \<times> string" where
  "DecodeDestination L str script params =
     (let is_bech32 = (ToLower (take (length (bech32_hrp params)) str) = bech32_hrp params)
      in if \<not> is_bech32 then
           (case DecodeBase58Check L str 21 of
              Some data \<Rightarrow>
                (let pubkey_prefix = base58Prefixes params PUBKEY_ADDRESS;
                     script_prefix = base58Prefixes params SCRIPT_ADDRESS
                 in if length data = 20 + length pubkey_prefix
                       \<and> take (length pubkey_prefix) data = pubkey_prefix then
                      (True,
                       vector_insert 3 (drop (length pubkey_prefix) data)
                         (script @ [OP_DUP, OP_HASH160, EncodePushBytes_N 20])
                         @ [OP_EQUALVERIFY, OP_CHECKSIG],
                       [])
                    else if length data = 20 + length script_prefix
                       \<and> take (length script_prefix) data = script_prefix then
                      (True,
                       vector_insert 2 (drop (length script_prefix) data)
                         (script @ [OP_HASH160, EncodePushBytes_N 20])
                         @ [OP_EQUAL],
                       [])
                    else if (length data \<ge> length script_prefix
                             \<and> take (length script_prefix) data = script_prefix)
                          \<or> (length data \<ge> length pubkey_prefix
                             \<and> take (length pubkey_prefix) data = pubkey_prefix) then
                      (False, script, ''Invalid length for Base58 address (P2PKH or P2SH)'')
                    else (False, script, ''Invalid or unsupported Base58-encoded address.''))
            | None \<Rightarrow>
                (case DecodeBase58 L str 100 of
                   None \<Rightarrow>
                     (False, script,
                      ''Invalid or unsupported Segwit (Bech32) or Base58 encoding.'')
                 | Some data \<Rightarrow>
                     (False, script,
                      ''Invalid checksum or length of Base58 address (P2PKH or P2SH)'')))
         else DecodeDestination_bech32 L str script params)"

section \<open>IsValid\<close>

definition IsValid_bech32 :: "library \<Rightarrow> string \<Rightarrow> Params \<Rightarrow> bool" where
  "IsValid_bech32 L str params =
     (let dec = bech32_Decode L str
      in if dec_encoding dec = BECH32 \<or> dec_encoding dec = BECH32M then
           (if dec_data dec = [] then False
            else if dec_hrp dec \<noteq> bech32_hrp params then False
            else
              (let version = unat (dec_data dec ! 0)
               in if version = 0 \<and> dec_encoding dec \<noteq> BECH32 then False
                  else if version \<noteq> 0 \<and> dec_encoding dec \<noteq> BECH32M then False
                  else
                    (let (ok, data) = ConvertBits_push 5 8 False [] (drop 1 (dec_data dec))
                     in if ok then
                          (if version = 0 then
                             (if length data = 20 \<or> length data = 32 then True else False)
                           else if version = 1 \<and> length data = WITNESS_V1_TAPROOT_SIZE then True
                           else if version > 16 \<or> length data < 2
                                   \<or> length data > BECH32_WITNESS_PROG_MAX_LEN then False
                           else True)
                        else False)))
         else False)"

definition IsValid :: "library \<Rightarrow> string \<Rightarrow> Params \<Rightarrow> bool" where
  "IsValid L str params =
     (if str = [] then False
      else
        (let is_bech32 = (ToLower (take (length (bech32_hrp params)) str) = bech32_hrp params)
         in if \<not> is_bech32 then
              (case DecodeBase58Check L str 21 of
                 Some data \<Rightarrow>
                   (let pubkey_prefix = base58Prefixes params PUBKEY_ADDRESS;
                        script_prefix = base58Prefixes params SCRIPT_ADDRESS
                    in if length data = 20 + length pubkey_prefix
                          \<and> take (length pubkey_prefix) data = pubkey_prefix then True
                       else if length data = 20 + length script_prefix
                          \<and> take (length script_prefix) data = script_prefix then True
                       else False)
               | None \<Rightarrow> False)
            else IsValid_bech32 L str params))"

section \<open>The encoding library, from the spec\<close>

subsection \<open>Base58 and Base58Check\<close>

text \<open>
  Modelled from the spec: EncodeBase58, DecodeBase58, EncodeBase58Check and
  DecodeBase58Check of base58.hpp (section 4.B): the big-endian base-58 codec over the
  58-character alphabet, leading zero bytes mapping to leading '1' characters; the
  checksum is the first 4 bytes of the double SHA-256 of the payload; decoding fails on
  an invalid character, on a payload longer than max_len and on a checksum mismatch.
  SHA-256 is an external primitive: the parameter \<open>sha256\<close>, with a 256-bit digest.
\<close>

definition base58_ALPHABET :: string where
  "base58_ALPHABET = ''123456789ABCDEFGHJKLMNPQRSTUVWXYZabcdefghijkmnopqrstuvwxyz''"

fun find_index :: "'a \<Rightarrow> 'a list \<Rightarrow> nat option" where
  "find_index x [] = None"
| "find_index x (y # ys) = (if x = y then Some 0 else map_option Suc (find_index x ys))"

text \<open>The digits of a number, most significant first; no digit for 0.\<close>

function to_base :: "nat \<Rightarrow> nat \<Rightarrow> nat list" where
  "to_base b n = (if n = 0 \<or> b < 2 then [] else to_base b (n div b) @ [n mod b])"
  by pat_completeness auto
termination
  by (relation "measure (\<lambda>(b, n). n)") auto

declare to_base.simps [simp del]

definition from_base :: "nat \<Rightarrow> nat list \<Rightarrow> nat" where
  "from_base b ds = foldl (\<lambda>a d. a * b + d) 0 ds"

definition EncodeBase58_spec :: "byte list \<Rightarrow> string" where
  "EncodeBase58_spec input =
     replicate (length (takeWhile (\<lambda>b. b = 0) input)) (CHR ''1'')
       @ map (\<lambda>d. base58_ALPHABET ! d) (to_base 58 (from_base 256 (map unat input)))"

definition DecodeBase58_spec :: "string \<Rightarrow> nat \<Rightarrow> byte list option" where
  "DecodeBase58_spec str max_ret_len =
     (case those (map (\<lambda>c. find_index c base58_ALPHABET) str) of
        None \<Rightarrow> None
      | Some ds \<Rightarrow>
          (let vch = replicate (length (takeWhile (\<lambda>d. d = 0) ds)) 0
                       @ map of_nat (to_base 256 (from_base 58 ds))
           in if length vch > max_ret_len then None else Some vch))"

definition digest_bytes :: "256 word \<Rightarrow> byte list" where
  "digest_bytes h = map (\<lambda>i. ucast (drop_bit (8 * (31 - i)) h)) [0 ..< 32]"

definition base58_checksum :: "(byte list \<Rightarrow> 256 word) \<Rightarrow> byte list \<Rightarrow> byte list" where
  "base58_checksum sha256 payload =
     take 4 (digest_bytes (sha256 (digest_bytes (sha256 payload))))"

definition EncodeBase58Check_spec :: "(byte list \<Rightarrow> 256 word) \<Rightarrow> byte list \<Rightarrow> string" where
  "EncodeBase58Check_spec sha256 payload =
     EncodeBase58_spec (payload @ base58_checksum sha256 payload)"

definition DecodeBase58Check_spec ::
  "(byte list \<Rightarrow> 256 word) \<Rightarrow> string \<Rightarrow> nat \<Rightarrow> byte list option" where
  "DecodeBase58Check_spec sha256 str max_ret_len =
     (case DecodeBase58_spec str (max_ret_len + 4) of
        None \<Rightarrow> None
      | Some vch \<Rightarrow>
          if length vch < 4 then None
          else
            (let payload = take (length vch - 4) vch
             in if base58_checksum sha256 payload = drop (length vch - 4) vch
                then Some payload else None))"

subsection \<open>Bech32 and Bech32m\<close>

text \<open>
  Modelled from the spec: Encode and Decode of bech32.hpp (section 4.C): the form
  hrp, '1', data symbols, six checksum symbols over the 32-character alphabet; the
  checksum is the BIP-173 polymod over the expanded hrp, the data and the checksum,
  with residue 1 for BECH32 and 0x2bc830a3 for BECH32M. Decoding lowercases the text
  and rejects mixed case, splits at the last '1', validates the hrp (1..83 characters
  in 33..126) and the data alphabet and verifies the checksum; a text of more than 90
  characters is rejected (section 5). A failed decoding is the result with the
  encoding INVALID.
\<close>

definition bech32_CHARSET :: string where
  "bech32_CHARSET = ''qpzry9x8gf2tvdw0s3jn54khce6mua7l''"

definition bech32_polymod_step :: "32 word \<Rightarrow> byte \<Rightarrow> 32 word" where
  "bech32_polymod_step c v =
     (let c0 = drop_bit 25 c;
          c1 = push_bit 5 (c AND 0x1ffffff) XOR ucast v;
          c2 = (if bit c0 0 then c1 XOR 0x3b6a57b2 else c1);
          c3 = (if bit c0 1 then c2 XOR 0x26508e6d else c2);
          c4 = (if bit c0 2 then c3 XOR 0x1ea119fa else c3);
          c5 = (if bit c0 3 then c4 XOR 0x3d4233dd else c4)
      in if bit c0 4 then c5 XOR 0x2a1462b3 else c5)"

definition bech32_polymod :: "byte list \<Rightarrow> 32 word" where
  "bech32_polymod values = foldl bech32_polymod_step 1 values"

definition byte_of_char :: "char \<Rightarrow> byte" where
  "byte_of_char c = of_nat (of_char c)"

definition bech32_expand_hrp :: "string \<Rightarrow> byte list" where
  "bech32_expand_hrp hrp =
     map (\<lambda>c. drop_bit 5 (byte_of_char c)) hrp @ [0] @ map (\<lambda>c. byte_of_char c AND 31) hrp"

definition bech32_encoding_constant :: "Encoding \<Rightarrow> 32 word" where
  "bech32_encoding_constant enc = (if enc = BECH32M then 0x2bc830a3 else 1)"

definition bech32_create_checksum :: "Encoding \<Rightarrow> string \<Rightarrow> byte list \<Rightarrow> byte list" where
  "bech32_create_checksum enc hrp values =
     (let poly = bech32_polymod (bech32_expand_hrp hrp @ values @ replicate 6 0)
                   XOR bech32_encoding_constant enc
      in map (\<lambda>i. ucast (drop_bit (5 * (5 - i)) poly AND 31)) [0 ..< 6])"

definition bech32_verify_checksum :: "string \<Rightarrow> byte list \<Rightarrow> Encoding" where
  "bech32_verify_checksum hrp values =
     (let check = bech32_polymod (bech32_expand_hrp hrp @ values)
      in if check = bech32_encoding_constant BECH32 then BECH32
         else if check = bech32_encoding_constant BECH32M then BECH32M
         else INVALID)"

definition bech32_Encode_spec :: "Encoding \<Rightarrow> string \<Rightarrow> byte list \<Rightarrow> string" where
  "bech32_Encode_spec enc hrp values =
     hrp @ ''1''
       @ map (\<lambda>v. bech32_CHARSET ! unat v) (values @ bech32_create_checksum enc hrp values)"

fun rfind :: "'a \<Rightarrow> 'a list \<Rightarrow> nat option" where
  "rfind c [] = None"
| "rfind c (x # xs) =
     (case rfind c xs of
        Some i \<Rightarrow> Some (Suc i)
      | None \<Rightarrow> if x = c then Some 0 else None)"

definition is_upper :: "char \<Rightarrow> bool" where
  "is_upper c = (65 \<le> (of_char c :: nat) \<and> (of_char c :: nat) \<le> 90)"

definition is_lower :: "char \<Rightarrow> bool" where
  "is_lower c = (97 \<le> (of_char c :: nat) \<and> (of_char c :: nat) \<le> 122)"

definition hrp_char :: "char \<Rightarrow> bool" where
  "hrp_char c = (33 \<le> (of_char c :: nat) \<and> (of_char c :: nat) \<le> 126)"

definition bech32_invalid :: DecodeResult where
  "bech32_invalid = \<lparr>dec_encoding = INVALID, dec_hrp = [], dec_data = []\<rparr>"

definition bech32_Decode_spec :: "string \<Rightarrow> DecodeResult" where
  "bech32_Decode_spec str =
     (if length str > 90 \<or> (list_ex is_lower str \<and> list_ex is_upper str) then bech32_invalid
      else
        (case rfind (CHR ''1'') (ToLower str) of
           None \<Rightarrow> bech32_invalid
         | Some pos \<Rightarrow>
             (let hrp = take pos (ToLower str);
                  rest = drop (pos + 1) (ToLower str)
              in if length hrp < 1 \<or> length hrp > 83 \<or> length rest < 6
                    \<or> \<not> list_all hrp_char hrp then bech32_invalid
                 else
                   (case those (map (\<lambda>c. find_index c bech32_CHARSET) rest) of
                      None \<Rightarrow> bech32_invalid
                    | Some ds \<Rightarrow>
                        (let values = map of_nat ds;
                             result = bech32_verify_checksum hrp values
                         in if result = INVALID then bech32_invalid
                            else \<lparr>dec_encoding = result, dec_hrp = hrp,
                                   dec_data = take (length values - 6) values\<rparr>)))))"

definition spec_library :: "(byte list \<Rightarrow> 256 word) \<Rightarrow> library" where
  "spec_library sha256 =
     \<lparr>EncodeBase58Check = EncodeBase58Check_spec sha256,
      DecodeBase58Check = DecodeBase58Check_spec sha256,
      DecodeBase58 = DecodeBase58_spec,
      bech32_Encode = bech32_Encode_spec,
      bech32_Decode = bech32_Decode_spec\<rparr>"

text \<open>The parameters of the main network (section 8 of the spec).\<close>

definition mainnet_params :: Params where
  "mainnet_params =
     \<lparr>base58Prefixes = (\<lambda>t. case t of PUBKEY_ADDRESS \<Rightarrow> [0x00] | SCRIPT_ADDRESS \<Rightarrow> [0x05]),
      bech32_hrp = ''bc''\<rparr>"

section \<open>The conditions of the address round trip\<close>

text \<open>
  The test by which DecodeDestination takes a text for a Bech32 address (its local
  variable \<open>is_bech32\<close>): the lowercased first characters of the text, as many as the
  hrp has, are the hrp.
\<close>

definition is_bech32 :: "Params \<Rightarrow> string \<Rightarrow> bool" where
  "is_bech32 params str = (ToLower (take (length (bech32_hrp params)) str) = bech32_hrp params)"

text \<open>
  An hrp that the Bech32 decoder accepts back for an address of n data symbols: not
  empty, of printable characters (33..126), without uppercase letters, and short enough
  for the whole text (hrp, separator, n data symbols, 6 checksum symbols) to stay within
  90 characters.
\<close>

definition bech32_hrp_ok :: "string \<Rightarrow> nat \<Rightarrow> bool" where
  "bech32_hrp_ok hrp n =
     (hrp \<noteq> [] \<and> list_all hrp_char hrp \<and> \<not> list_ex is_upper hrp \<and> length hrp + n \<le> 83)"

text \<open>
  The parameters under which the address of a script of the given kind decodes back to
  the script. Base58 kinds: the prefix has at most one byte (DecodeDestination decodes at
  most 21 bytes), the SCRIPT prefix is not the PUBKEY prefix (which is tested first), and
  the address is not taken for a Bech32 address. Bech32 kinds: the hrp is accepted back
  for 1 + 32 symbols (a 20-byte program) or 1 + 52 symbols (a 32-byte program).
\<close>

definition roundtrip_params :: "TxoutType \<Rightarrow> Params \<Rightarrow> string \<Rightarrow> bool" where
  "roundtrip_params kind params addr =
     (if kind = PUBKEYHASH then
        length (base58Prefixes params PUBKEY_ADDRESS) \<le> 1 \<and> \<not> is_bech32 params addr
      else if kind = SCRIPTHASH then
        length (base58Prefixes params SCRIPT_ADDRESS) \<le> 1
        \<and> base58Prefixes params SCRIPT_ADDRESS \<noteq> base58Prefixes params PUBKEY_ADDRESS
        \<and> \<not> is_bech32 params addr
      else if kind = WITNESS_V0_KEYHASH then bech32_hrp_ok (bech32_hrp params) 33
      else bech32_hrp_ok (bech32_hrp params) 53)"

text \<open>
  The generator of the Bech32 checksum as a function of the five top bits of the state,
  which is how one step of the polymod uses it.
\<close>

definition bech32_generator :: "32 word \<Rightarrow> 32 word" where
  "bech32_generator c0 =
     (if bit c0 0 then 0x3b6a57b2 else 0) XOR (if bit c0 1 then 0x26508e6d else 0)
     XOR (if bit c0 2 then 0x1ea119fa else 0) XOR (if bit c0 3 then 0x3d4233dd else 0)
     XOR (if bit c0 4 then 0x2a1462b3 else 0)"

section \<open>Properties of DecodeDestination and IsValid\<close>

lemma spec_library_simps:
  "EncodeBase58Check (spec_library sha256) = EncodeBase58Check_spec sha256"
  "DecodeBase58Check (spec_library sha256) = DecodeBase58Check_spec sha256"
  "DecodeBase58 (spec_library sha256) = DecodeBase58_spec"
  "bech32_Encode (spec_library sha256) = bech32_Encode_spec"
  "bech32_Decode (spec_library sha256) = bech32_Decode_spec"
  by (simp_all add: spec_library_def)

lemma DecodeDestination_bech32_failure:
  "fst (DecodeDestination_bech32 L str script params) \<or>
     (fst (snd (DecodeDestination_bech32 L str script params)) = script
      \<and> snd (snd (DecodeDestination_bech32 L str script params)) \<noteq> [])"
  by (simp add: DecodeDestination_bech32_def Let_def split: prod.splits)

lemma DecodeDestination_failure:
  "fst (DecodeDestination L str script params) \<or>
     (fst (snd (DecodeDestination L str script params)) = script
      \<and> snd (snd (DecodeDestination L str script params)) \<noteq> [])"
  using DecodeDestination_bech32_failure [of L str script params]
  by (simp add: DecodeDestination_def Let_def split: option.splits)

text \<open>
  Claim C9. DecodeDestination is atomic on failure: whenever it returns false, for any
  library, text, script on entry and parameters, the script comes back as it was on
  entry and the error string is not empty.
\<close>

theorem DecodeDestination_atomic_on_failure:
  "DecodeDestination L str script params = (ok, script', error_str) \<Longrightarrow> \<not> ok
     \<Longrightarrow> script' = script \<and> error_str \<noteq> []"
  using DecodeDestination_failure [of L str script params] by simp

theorem DecodeDestination_atomic_on_failure_witness:
  "DecodeDestination (spec_library (\<lambda>x. 0)) ''bc1'' [0x51, 0x52] mainnet_params
     = (False, [0x51, 0x52], ''Invalid address'')
   \<and> [0x51, 0x52 :: byte] = [0x51, 0x52] \<and> ''Invalid address'' \<noteq> []"
proof -
  have run: "DecodeDestination (spec_library (\<lambda>x. 0)) ''bc1'' [0x51, 0x52] mainnet_params
               = (False, [0x51, 0x52], ''Invalid address'')"
    by code_simp
  from DecodeDestination_atomic_on_failure [OF run] run show ?thesis by simp
qed

lemma DecodeDestination_version0_bech32m:
  assumes "ToLower (take (length (bech32_hrp params)) str) = bech32_hrp params"
    and "dec_encoding (bech32_Decode L str) = BECH32M"
    and "dec_data (bech32_Decode L str) \<noteq> []"
    and "dec_hrp (bech32_Decode L str) = bech32_hrp params"
    and "dec_data (bech32_Decode L str) ! 0 = 0"
  shows "DecodeDestination L str script params
           = (False, script, ''Version 0 witness address must use Bech32 checksum'')"
  using assms by (simp add: DecodeDestination_def DecodeDestination_bech32_def Let_def)

text \<open>
  Claim C8. A text that reaches the Bech32 branch (its lowercased prefix is the hrp of
  the parameters) and that decodes as BECH32M with data, with the hrp of the parameters
  and with the witness version 0 as its first symbol, is rejected with the error string
  "Version 0 witness address must use Bech32 checksum", and the script is unchanged. It
  holds for any library.
\<close>

theorem DecodeDestination_bech32m_version0_rejected:
  assumes "ToLower (take (length (bech32_hrp params)) str) = bech32_hrp params"
    and "bech32_Decode L str = dec"
    and "dec_encoding dec = BECH32M"
    and "dec_data dec \<noteq> []"
    and "dec_hrp dec = bech32_hrp params"
    and "dec_data dec ! 0 = 0"
  shows "DecodeDestination L str script params
           = (False, script, ''Version 0 witness address must use Bech32 checksum'')"
  using assms DecodeDestination_version0_bech32m [of params str L script] by simp

theorem DecodeDestination_bech32m_version0_rejected_witness:
  "DecodeDestination (spec_library (\<lambda>x. 0)) ''bc1qs73yx7'' [] mainnet_params
     = (False, [], ''Version 0 witness address must use Bech32 checksum'')"
proof -
  have dec: "bech32_Decode (spec_library (\<lambda>x. 0)) ''bc1qs73yx7''
               = \<lparr>dec_encoding = BECH32M, dec_hrp = ''bc'', dec_data = [0]\<rparr>"
    by code_simp
  have route: "ToLower (take (length (bech32_hrp mainnet_params)) ''bc1qs73yx7'')
                 = bech32_hrp mainnet_params"
    by code_simp
  show ?thesis
    by (rule DecodeDestination_bech32m_version0_rejected [OF route dec])
       (simp_all add: mainnet_params_def)
qed

lemma IsValid_bech32_eq:
  "IsValid_bech32 L str params = fst (DecodeDestination_bech32 L str script params)"
  by (simp add: IsValid_bech32_def DecodeDestination_bech32_def Let_def split: prod.splits)

lemma IsValid_nonempty:
  "str \<noteq> [] \<Longrightarrow> IsValid L str params = fst (DecodeDestination L str script params)"
  by (simp add: IsValid_def DecodeDestination_def Let_def IsValid_bech32_eq [of _ _ _ script]
           split: option.splits)

lemma to_base_0 [simp]: "to_base b 0 = []"
  by (simp add: to_base.simps)

lemma DecodeBase58Check_spec_empty: "DecodeBase58Check_spec sha256 [] n = None"
  by (simp add: DecodeBase58Check_spec_def DecodeBase58_spec_def from_base_def)

lemma bech32_Decode_spec_empty: "bech32_Decode_spec [] = bech32_invalid"
  by (simp add: bech32_Decode_spec_def ToLower_def)

lemma DecodeDestination_spec_empty:
  "fst (DecodeDestination (spec_library sha256) [] script params) = False"
  by (simp add: DecodeDestination_def DecodeDestination_bech32_def Let_def spec_library_simps
        DecodeBase58Check_spec_empty bech32_Decode_spec_empty bech32_invalid_def ToLower_def
      split: option.splits)

text \<open>
  Claim C2. IsValid returns true exactly when DecodeDestination does, for every text
  (the empty text included) and all parameters. For a text that is not empty the two
  agree for any library (\<open>IsValid_nonempty\<close>); on the empty text IsValid returns false
  at once, and so does DecodeDestination with the Base58 and Bech32 decoders of the
  spec, which reject the empty text.
\<close>

theorem IsValid_iff_DecodeDestination:
  "IsValid (spec_library sha256) a p
     = fst (DecodeDestination (spec_library sha256) a script p)"
proof (cases "a = []")
  case True
  then show ?thesis
    by (simp add: DecodeDestination_spec_empty) (simp add: IsValid_def)
next
  case False
  then show ?thesis by (rule IsValid_nonempty)
qed

lemma rfind_less: "rfind c xs = Some i \<Longrightarrow> i < length xs"
  by (induction xs arbitrary: i) (auto split: option.splits if_splits)

lemma bech32_Decode_spec_cases:
  "bech32_Decode_spec str = bech32_invalid \<or>
   (\<exists>pos. rfind (CHR ''1'') (ToLower str) = Some pos
      \<and> dec_hrp (bech32_Decode_spec str) = take pos (ToLower str))"
  by (simp add: bech32_Decode_spec_def Let_def split: option.splits)

lemma bech32_Decode_spec_routing:
  assumes "dec_encoding (bech32_Decode_spec str) \<noteq> INVALID"
  shows "ToLower (take (length (dec_hrp (bech32_Decode_spec str))) str)
           = dec_hrp (bech32_Decode_spec str)"
proof -
  from assms have "bech32_Decode_spec str \<noteq> bech32_invalid"
    by (auto simp: bech32_invalid_def)
  with bech32_Decode_spec_cases [of str] obtain pos
    where pos: "rfind (CHR ''1'') (ToLower str) = Some pos"
      and hrp: "dec_hrp (bech32_Decode_spec str) = take pos (ToLower str)"
    by blast
  from rfind_less [OF pos] have "pos < length str" by (simp add: ToLower_def)
  then show ?thesis by (simp add: hrp ToLower_def take_map)
qed

lemma DecodeDestination_version_other:
  assumes route: "ToLower (take (length (bech32_hrp params)) str) = bech32_hrp params"
    and enc: "dec_encoding (bech32_Decode L str) = BECH32M"
    and hrp: "dec_hrp (bech32_Decode L str) = bech32_hrp params"
    and dat: "dec_data (bech32_Decode L str) = v # syms"
    and ver: "(2 \<le> unat v \<and> unat v \<le> 16) \<or> (unat v = 1 \<and> length p \<noteq> 32)"
    and conv: "ConvertBits_push 5 8 False [] syms = (True, p)"
    and len: "2 \<le> length p" "length p \<le> 40"
  shows "DecodeDestination L str [] params = (True, EncodeOP_N (unat v) # p, [])"
  using assms
  by (auto simp add: DecodeDestination_def DecodeDestination_bech32_def Let_def size_defs vector_insert_def)

text \<open>
  Claim C7, with the condition on entry that the code needs. For a text that the Bech32
  decoder of the spec decodes as BECH32M with the hrp of the parameters, whose first data
  symbol is a witness version v with 2 \<le> v \<le> 16 (or v = 1 with a program of a size
  other than 32) and whose other symbols convert, 5 to 8 bits without padding, to a
  program p of 2 to 40 bytes: when the script passed in is empty, DecodeDestination
  returns true and the script is the byte EncodeOP_N v followed at once by the bytes of
  p: 1 + |p| bytes, with no push opcode between them. DecodeDestination never clears
  the script it is given: it appends the version opcode and inserts the program at the
  absolute position 1, so the claim without the condition fails, as the theorem after
  the next shows.
\<close>

theorem DecodeDestination_unknown_version_script:
  assumes enc: "dec_encoding (bech32_Decode_spec str) = BECH32M"
    and hrp: "dec_hrp (bech32_Decode_spec str) = bech32_hrp params"
    and dat: "dec_data (bech32_Decode_spec str) = v # syms"
    and ver: "(2 \<le> unat v \<and> unat v \<le> 16) \<or> (unat v = 1 \<and> length p \<noteq> 32)"
    and conv: "ConvertBits_push 5 8 False [] syms = (True, p)"
    and len: "2 \<le> length p" "length p \<le> 40"
  shows "DecodeDestination (spec_library sha256) str [] params
           = (True, EncodeOP_N (unat v) # p, [])
         \<and> length (EncodeOP_N (unat v) # p) = 1 + length p"
proof -
  from enc have "dec_encoding (bech32_Decode_spec str) \<noteq> INVALID" by simp
  from bech32_Decode_spec_routing [OF this] hrp
  have route: "ToLower (take (length (bech32_hrp params)) str) = bech32_hrp params" by simp
  show ?thesis
    using DecodeDestination_version_other [of params str "spec_library sha256" v syms p]
      route enc hrp dat ver conv len
    by (simp add: spec_library_simps)
qed

theorem DecodeDestination_unknown_version_script_witness:
  "DecodeDestination (spec_library (\<lambda>x. 0)) ''bc1zqqqqvmec0n'' [] mainnet_params
     = (True, [0x52, 0, 0], [])"
proof -
  have dec: "bech32_Decode_spec ''bc1zqqqqvmec0n''
               = \<lparr>dec_encoding = BECH32M, dec_hrp = ''bc'', dec_data = [2, 0, 0, 0, 0]\<rparr>"
    by code_simp
  have conv: "ConvertBits_push 5 8 False [] [0, 0, 0, 0] = (True, [0, 0])"
    by code_simp
  have op: "EncodeOP_N 2 = 0x52"
    by (simp add: EncodeOP_N_def opcode_defs)
  show ?thesis
    using DecodeDestination_unknown_version_script
      [of "''bc1zqqqqvmec0n''" mainnet_params 2 "[0, 0, 0, 0]" "[0, 0]" "\<lambda>x. 0"]
    by (simp add: dec conv op mainnet_params_def)
qed

text \<open>
  The claim C7 as the spec states it, for any script passed in, fails: the text
  bc1zqqqqvmec0n is a Bech32m text of the main network with the witness version 2 and
  the program 00 00, and with the script 51 52 passed in DecodeDestination returns true
  with the script 51 00 00 52 52, which is not the byte EncodeOP_N 2 = 52 followed by
  the program.
\<close>

theorem DecodeDestination_unknown_version_entry_script:
  "bech32_Decode_spec ''bc1zqqqqvmec0n''
     = \<lparr>dec_encoding = BECH32M, dec_hrp = bech32_hrp mainnet_params,
        dec_data = [2, 0, 0, 0, 0]\<rparr>
   \<and> ConvertBits_push 5 8 False [] [0, 0, 0, 0] = (True, [0, 0])
   \<and> DecodeDestination (spec_library (\<lambda>x. 0)) ''bc1zqqqqvmec0n'' [0x51, 0x52] mainnet_params
       = (True, [0x51, 0, 0, 0x52, 0x52], [])
   \<and> [0x51, 0, 0, 0x52, 0x52] \<noteq> EncodeOP_N 2 # [0, 0]"
proof -
  have dec: "bech32_Decode_spec ''bc1zqqqqvmec0n''
               = \<lparr>dec_encoding = BECH32M, dec_hrp = ''bc'', dec_data = [2, 0, 0, 0, 0]\<rparr>"
    by code_simp
  have conv: "ConvertBits_push 5 8 False [] [0, 0, 0, 0] = (True, [0, 0])"
    by code_simp
  have op: "EncodeOP_N 2 = 0x52"
    by (simp add: EncodeOP_N_def opcode_defs)
  have route: "ToLower ''bc'' = ''bc''"
    by (simp add: ToLower_def LowerCase_def)
  have "DecodeDestination (spec_library (\<lambda>x. 0)) ''bc1zqqqqvmec0n'' [0x51, 0x52] mainnet_params
          = (True, [0x51, 0, 0, 0x52, 0x52], [])"
    by (simp add: DecodeDestination_def DecodeDestination_bech32_def spec_library_def
          mainnet_params_def route dec conv op Let_def size_defs vector_insert_def)
  with dec conv op show ?thesis by (simp add: mainnet_params_def)
qed

section \<open>Properties of Solver and ExtractDestination\<close>


lemma Solver_witness_kind:
  "IsWitnessProgram s = Some (v, p) \<Longrightarrow> \<not> IsPayToScriptHash s \<Longrightarrow>
     fst (Solver s) \<in> {WITNESS_V0_KEYHASH, WITNESS_V0_SCRIPTHASH, WITNESS_V1_TAPROOT,
                        WITNESS_UNKNOWN, NONSTANDARD}"
  by (simp add: Solver_def)

lemma Solver_tail:
  assumes "\<not> IsPayToScriptHash s" "IsWitnessProgram s = None" "\<not> (length s \<ge> 1 \<and> s ! 0 = OP_RETURN \<and> IsPushOnly (drop 1 s))"
  shows "Solver s =
     (case MatchPayToPubkey s of
        Some data \<Rightarrow> (PUBKEY, [data])
      | None \<Rightarrow>
         (case MatchPayToPubkeyHash s of
            Some data \<Rightarrow> (PUBKEYHASH, [data])
          | None \<Rightarrow>
             (case MatchMultisig s of
                Some (required, keys) \<Rightarrow>
                  (MULTISIG, [[of_nat required]] @ keys @ [[of_nat (length keys)]])
              | None \<Rightarrow> (NONSTANDARD, []))))"
  using assms by (auto simp: Solver_def)

lemma ValidSize_length: "ValidSize k \<Longrightarrow> length k = 33 \<or> length k = 65"
  by (auto simp: ValidSize_def GetLen_def size_defs split: if_splits)

lemma ValidSize_nonempty: "ValidSize k \<Longrightarrow> k \<noteq> []"
  by (auto simp: ValidSize_def)

lemma MatchMultisig_loop_keys:
  "MatchMultisig_loop it acc = (keys, opc, it') \<Longrightarrow>
     \<exists>ks. keys = acc @ ks \<and> list_all ValidSize ks"
proof (induction it acc arbitrary: keys opc it' rule: MatchMultisig_loop.induct)
  case (1 it pubkeys)
  show ?case
  proof (cases "GetScriptOp it")
    case None
    with "1.prems" show ?thesis by (simp add: MatchMultisig_loop.simps [of it])
  next
    case (Some r)
    obtain opcode d it1 where r: "r = (opcode, d, it1)" by (cases r) auto
    show ?thesis
    proof (cases "ValidSize d")
      case True
      with Some r "1.prems" have "MatchMultisig_loop it1 (pubkeys @ [d]) = (keys, opc, it')"
        by (simp add: MatchMultisig_loop.simps [of it])
      from "1.IH" [OF Some r [symmetric] refl True this]
      obtain ks where "keys = (pubkeys @ [d]) @ ks" "list_all ValidSize ks" by auto
      with True show ?thesis by (intro exI [of _ "d # ks"]) simp
    next
      case False
      with Some r "1.prems" show ?thesis by (simp add: MatchMultisig_loop.simps [of it])
    qed
  qed
qed

lemma IsSmallInteger_DecodeOP_N:
  "IsSmallInteger opc \<Longrightarrow> 1 \<le> DecodeOP_N opc \<and> DecodeOP_N opc \<le> 16"
  by (auto simp: IsSmallInteger_def DecodeOP_N_def opcode_defs word_le_nat_alt)

lemma MatchMultisig_keys:
  assumes "MatchMultisig s = Some (required, keys)"
  shows "list_all ValidSize keys \<and> 1 \<le> required \<and> required \<le> length keys
           \<and> length keys \<le> 16"
proof -
  from assms obtain opcode d it where g: "GetScriptOp s = Some (opcode, d, it)"
    by (auto simp: MatchMultisig_def split: if_splits option.splits)
  obtain pubkeys opc' it' where l: "MatchMultisig_loop it [] = (pubkeys, opc', it')"
    by (cases "MatchMultisig_loop it []") auto
  from assms g l have *: "IsSmallInteger opcode" "IsSmallInteger opc'" "required = DecodeOP_N opcode"
    "length pubkeys = DecodeOP_N opc'" "\<not> DecodeOP_N opc' < required" "keys = pubkeys"
    by (auto simp: MatchMultisig_def Let_def split: if_splits)
  from MatchMultisig_loop_keys [OF l] have "list_all ValidSize pubkeys" by auto
  with * IsSmallInteger_DecodeOP_N [of opcode] IsSmallInteger_DecodeOP_N [of opc']
  show ?thesis by auto
qed

lemma MatchPayToPubkey_ValidSize: "MatchPayToPubkey s = Some k \<Longrightarrow> ValidSize k"
  by (auto simp: MatchPayToPubkey_def Let_def split: if_splits)

lemma Solver_late_rules:
  assumes "fst (Solver s) \<in> {PUBKEY, PUBKEYHASH, MULTISIG}"
  shows "\<not> IsPayToScriptHash s \<and> IsWitnessProgram s = None \<and> \<not> (length s \<ge> 1 \<and> s ! 0 = OP_RETURN \<and> IsPushOnly (drop 1 s))"
proof -
  have a: "\<not> IsPayToScriptHash s"
  proof
    assume "IsPayToScriptHash s"
    then have "fst (Solver s) = SCRIPTHASH" by (simp add: Solver_def)
    with assms show False by simp
  qed
  have b: "IsWitnessProgram s = None"
  proof (cases "IsWitnessProgram s")
    case (Some r)
    obtain v p where "r = (v, p)" by (cases r) auto
    with Some Solver_witness_kind [of s v p] a assms show ?thesis by auto
  qed simp
  have c: "\<not> (length s \<ge> 1 \<and> s ! 0 = OP_RETURN \<and> IsPushOnly (drop 1 s))"
  proof
    assume "(length s \<ge> 1 \<and> s ! 0 = OP_RETURN \<and> IsPushOnly (drop 1 s))"
    with a b have "fst (Solver s) = NULL_DATA" by (simp add: Solver_def)
    with assms show False by simp
  qed
  from a b c show ?thesis by simp
qed

lemma Solver_MULTISIG:
  assumes "Solver s = (MULTISIG, sols)"
  shows "\<exists>required keys. MatchMultisig s = Some (required, keys)
        \<and> sols = [[of_nat required]] @ keys @ [[of_nat (length keys)]]"
proof -
  from assms have "fst (Solver s) \<in> {PUBKEY, PUBKEYHASH, MULTISIG}" by simp
  from Solver_late_rules [OF this] Solver_tail [of s] assms
  show ?thesis by (auto split: option.splits)
qed

lemma Solver_PUBKEY:
  assumes "Solver s = (PUBKEY, sols)"
  shows "\<exists>k. MatchPayToPubkey s = Some k \<and> sols = [k]"
proof -
  from assms have "fst (Solver s) \<in> {PUBKEY, PUBKEYHASH, MULTISIG}" by simp
  from Solver_late_rules [OF this] Solver_tail [of s] assms
  show ?thesis by (auto split: option.splits)
qed

lemma Solver_PUBKEYHASH:
  assumes "Solver s = (PUBKEYHASH, sols)"
  shows "\<exists>h. MatchPayToPubkeyHash s = Some h \<and> sols = [h]"
proof -
  from assms have "fst (Solver s) \<in> {PUBKEY, PUBKEYHASH, MULTISIG}" by simp
  from Solver_late_rules [OF this] Solver_tail [of s] assms
  show ?thesis by (auto split: option.splits)
qed

lemma fold_append_addresses:
  "list_all (\<lambda>k. k \<noteq> []) ks \<Longrightarrow>
     fold (\<lambda>k ret. if length k = 0 then ret else ret @ [e k]) ks acc = acc @ map e ks"
  by (induction ks arbitrary: acc) auto

lemma ExtractDestination_multisig_keys:
  assumes "list_all ValidSize keys"
  shows "ExtractDestination_multisig L params ([m] # keys @ [[n]]) addressRet
           = addressRet @ map (\<lambda>pubkey. EncodeBase58Check L
                                 (base58Prefixes params PUBKEY_ADDRESS @ pubkey)) keys"
proof -
  let ?sols = "[m] # keys @ [[n]]"
  let ?e = "\<lambda>pubkey. EncodeBase58Check L (base58Prefixes params PUBKEY_ADDRESS @ pubkey)"
  have len: "length ?sols - 1 = Suc (length keys)" by simp
  have idx: "map (nth ?sols) [1 ..< length ?sols - 1] = keys"
    unfolding len
  proof (rule nth_equalityI)
    show "length (map (nth ?sols) [1 ..< Suc (length keys)]) = length keys"
      by (simp del: upt_Suc)
  next
    fix i assume "i < length (map (nth ?sols) [1 ..< Suc (length keys)])"
    then have i: "i < length keys" by (simp del: upt_Suc)
    then have "[1 ..< Suc (length keys)] ! i = Suc i" by (simp del: upt_Suc)
    with i show "map (nth ?sols) [1 ..< Suc (length keys)] ! i = keys ! i"
      by (simp add: nth_append del: upt_Suc)
  qed
  have "ExtractDestination_multisig L params ?sols addressRet
          = fold (\<lambda>k ret. if length k = 0 then ret else ret @ [?e k])
              (map (nth ?sols) [1 ..< length ?sols - 1]) addressRet"
    unfolding ExtractDestination_multisig_def fold_map by (simp add: comp_def)
  also have "\<dots> = addressRet @ map ?e keys"
    unfolding idx using assms
    by (intro fold_append_addresses) (auto simp: list_all_iff dest: ValidSize_nonempty)
  finally show ?thesis .
qed

lemma ExtractDestination_MULTISIG:
  assumes "MatchMultisig s = Some (required, keys)"
    and "Solver s = (MULTISIG, [[of_nat required]] @ keys @ [[of_nat (length keys)]])"
  shows "ExtractDestination L s params addressRet
           = (False, addressRet @ map (\<lambda>pubkey. EncodeBase58Check L
                                  (base58Prefixes params PUBKEY_ADDRESS @ pubkey)) keys)"
  using MatchMultisig_keys [OF assms(1)] assms(2)
  by (simp add: ExtractDestination_def ExtractDestination_multisig_keys)

text \<open>
  Claim C6. For every script that Solver classifies as MULTISIG, ExtractDestination
  appends to the output list one Base58Check address per public key of the script (the
  PUBKEY_ADDRESS prefix followed by the bytes of the key), in order; there is at least
  one key, and the verdict is false all the same. It holds for any library.
\<close>

theorem ExtractDestination_multisig_returns_false:
  assumes "Solver scriptPubKey = (MULTISIG, vSolutions)"
  shows "\<exists>required keys.
           MatchMultisig scriptPubKey = Some (required, keys) \<and> keys \<noteq> []
           \<and> vSolutions = [[of_nat required]] @ keys @ [[of_nat (length keys)]]
           \<and> ExtractDestination L scriptPubKey params addressRet
               = (False, addressRet @ map (\<lambda>pubkey. EncodeBase58Check L
                                      (base58Prefixes params PUBKEY_ADDRESS @ pubkey)) keys)"
proof -
  from Solver_MULTISIG [OF assms] obtain required keys
    where mm: "MatchMultisig scriptPubKey = Some (required, keys)"
      and sols: "vSolutions = [[of_nat required]] @ keys @ [[of_nat (length keys)]]"
    by blast
  from MatchMultisig_keys [OF mm] have "keys \<noteq> []" by auto
  with mm sols ExtractDestination_MULTISIG [OF mm assms [unfolded sols]]
  show ?thesis by blast
qed

theorem ExtractDestination_multisig_returns_false_witness:
  "ExtractDestination (spec_library (\<lambda>x. 0))
     ([0x51, 0x21] @ 2 # replicate 32 7 @ [0x51, 0xae]) mainnet_params [''a'']
   = (False, [''a'', EncodeBase58Check (spec_library (\<lambda>x. 0)) ([0] @ 2 # replicate 32 7)])"
proof -
  let ?s = "[0x51, 0x21] @ 2 # replicate 32 7 @ [0x51, 0xae] :: byte list"
  have solver: "Solver ?s = (MULTISIG, [[1], 2 # replicate 32 7, [1]])"
    by code_simp
  have mm: "MatchMultisig ?s = Some (1, [2 # replicate 32 7])"
    by code_simp
  have pre: "base58Prefixes mainnet_params PUBKEY_ADDRESS = [0]"
    by (simp add: mainnet_params_def)
  from ExtractDestination_multisig_returns_false
         [OF solver, of "spec_library (\<lambda>x. 0)" mainnet_params "[''a'']"]
  show ?thesis by (auto simp: mm pre)
qed

lemma ExtractDestination_PUBKEY:
  assumes "Solver s = (PUBKEY, [k])" "k \<noteq> []"
  shows "ExtractDestination L s params addressRet
           = (True, addressRet @ [EncodeBase58Check L (base58Prefixes params PUBKEY_ADDRESS @ k)])"
  using assms by (simp add: ExtractDestination_def)

text \<open>
  Claim C10. Every public key Solver returns is well-sized, 33 or 65 bytes, and so not
  empty. For a script classified PUBKEY the solution is one such key and
  ExtractDestination returns true with exactly one address appended (the emptiness
  guard does not fire); for a script classified MULTISIG with n keys every key is 33 or
  65 bytes and exactly n addresses are appended (no key is skipped).
\<close>

theorem Solver_pubkeys_never_empty:
  "(Solver s = (PUBKEY, sols) \<longrightarrow>
      (\<exists>k. sols = [k] \<and> (length k = 33 \<or> length k = 65)
         \<and> ExtractDestination L s params addressRet
             = (True, addressRet
                  @ [EncodeBase58Check L (base58Prefixes params PUBKEY_ADDRESS @ k)])))
   \<and> (Solver s = (MULTISIG, sols) \<longrightarrow>
      (\<exists>required keys.
         MatchMultisig s = Some (required, keys)
         \<and> sols = [[of_nat required]] @ keys @ [[of_nat (length keys)]]
         \<and> list_all (\<lambda>k. length k = 33 \<or> length k = 65) keys
         \<and> length (snd (ExtractDestination L s params addressRet))
             = length addressRet + length keys))"
proof (intro conjI impI)
  assume a: "Solver s = (PUBKEY, sols)"
  from Solver_PUBKEY [OF a] obtain k where k: "MatchPayToPubkey s = Some k" "sols = [k]"
    by blast
  from MatchPayToPubkey_ValidSize [OF k(1)] have v: "ValidSize k" .
  from ExtractDestination_PUBKEY [OF a [unfolded k(2)] ValidSize_nonempty [OF v]]
    ValidSize_length [OF v] k(2)
  show "\<exists>k. sols = [k] \<and> (length k = 33 \<or> length k = 65)
         \<and> ExtractDestination L s params addressRet
             = (True, addressRet
                  @ [EncodeBase58Check L (base58Prefixes params PUBKEY_ADDRESS @ k)])"
    by blast
next
  assume a: "Solver s = (MULTISIG, sols)"
  from Solver_MULTISIG [OF a] obtain required keys
    where mm: "MatchMultisig s = Some (required, keys)"
      and sols: "sols = [[of_nat required]] @ keys @ [[of_nat (length keys)]]"
    by blast
  from MatchMultisig_keys [OF mm] have "list_all ValidSize keys" by simp
  then have sz: "list_all (\<lambda>k. length k = 33 \<or> length k = 65) keys"
    by (auto simp: list_all_iff dest: ValidSize_length)
  have "length (snd (ExtractDestination L s params addressRet))
          = length addressRet + length keys"
    by (simp add: ExtractDestination_MULTISIG [OF mm a [unfolded sols]])
  with mm sols sz
  show "\<exists>required keys.
         MatchMultisig s = Some (required, keys)
         \<and> sols = [[of_nat required]] @ keys @ [[of_nat (length keys)]]
         \<and> list_all (\<lambda>k. length k = 33 \<or> length k = 65) keys
         \<and> length (snd (ExtractDestination L s params addressRet))
             = length addressRet + length keys"
    by blast
qed

theorem Solver_pubkeys_never_empty_witness:
  "ExtractDestination (spec_library (\<lambda>x. 0)) ([0x21] @ 2 # replicate 32 7 @ [0xac])
       mainnet_params []
     = (True, [EncodeBase58Check (spec_library (\<lambda>x. 0)) ([0] @ 2 # replicate 32 7)])
   \<and> length (snd (ExtractDestination (spec_library (\<lambda>x. 0))
         ([0x52, 0x21] @ 2 # replicate 32 7 @ [0x21] @ 3 # replicate 32 8 @ [0x52, 0xae])
         mainnet_params [])) = 2"
proof -
  let ?p = "[0x21] @ 2 # replicate 32 7 @ [0xac] :: byte list"
  let ?m = "[0x52, 0x21] @ 2 # replicate 32 7 @ [0x21] @ 3 # replicate 32 8 @ [0x52, 0xae]
              :: byte list"
  have p: "Solver ?p = (PUBKEY, [2 # replicate 32 7])"
    by code_simp
  have m: "Solver ?m = (MULTISIG, [[2], 2 # replicate 32 7, 3 # replicate 32 8, [2]])"
    by code_simp
  have mm: "MatchMultisig ?m = Some (2, [2 # replicate 32 7, 3 # replicate 32 8])"
    by code_simp
  have pre: "base58Prefixes mainnet_params PUBKEY_ADDRESS = [0]"
    by (simp add: mainnet_params_def)
  from Solver_pubkeys_never_empty
         [of ?p "[2 # replicate 32 7]" "spec_library (\<lambda>x. 0)" mainnet_params "[]"] p
  have 1: "ExtractDestination (spec_library (\<lambda>x. 0)) ?p mainnet_params []
     = (True, [EncodeBase58Check (spec_library (\<lambda>x. 0)) ([0] @ 2 # replicate 32 7)])"
    by (auto simp: pre)
  from Solver_pubkeys_never_empty
         [of ?m "[[2], 2 # replicate 32 7, 3 # replicate 32 8, [2]]"
             "spec_library (\<lambda>x. 0)" mainnet_params "[]"] m
  have 2: "length (snd (ExtractDestination (spec_library (\<lambda>x. 0)) ?m mainnet_params [])) = 2"
    by (auto simp: mm)
  from 1 2 show ?thesis by simp
qed

section \<open>Properties of ConvertBits\<close>

subsection \<open>Numbers and their digits\<close>

lemma foldl_base_init:
  "foldl (\<lambda>a d. a * b + d) v xs = v * b ^ length xs + from_base b xs"
  unfolding from_base_def
proof (induction xs arbitrary: v)
  case Nil
  show ?case by simp
next
  case (Cons x xs)
  show ?case
    unfolding foldl_Cons Cons.IH [of "v * b + x"] Cons.IH [of "0 * b + x"]
    by (simp add: algebra_simps)
qed

lemma from_base_Nil [simp]: "from_base b [] = 0"
  by (simp add: from_base_def)

lemma from_base_Cons: "from_base b (x # xs) = x * b ^ length xs + from_base b xs"
  using foldl_base_init [of b x xs] by (simp add: from_base_def)

lemma from_base_snoc: "from_base b (xs @ [d]) = from_base b xs * b + d"
  by (simp add: from_base_def)

lemma from_base_bound:
  "list_all (\<lambda>d. d < b) xs \<Longrightarrow> from_base b xs < b ^ length xs"
proof (induction xs rule: rev_induct)
  case Nil
  show ?case by simp
next
  case (snoc d xs)
  then have a: "from_base b xs < b ^ length xs" and d: "d < b" by simp_all
  from a have "from_base b xs + 1 \<le> b ^ length xs" by simp
  then have "(from_base b xs + 1) * b \<le> b ^ length xs * b" by (rule mult_le_mono1)
  with d show ?case by (simp add: from_base_snoc algebra_simps)
qed

lemma from_base_inj:
  assumes "length xs = length ys" "list_all (\<lambda>d. d < b) xs" "list_all (\<lambda>d. d < b) ys"
    and "from_base b xs = from_base b ys"
  shows "xs = ys"
  using assms
proof (induction xs ys rule: list_induct2)
  case Nil
  show ?case by simp
next
  case (Cons x xs y ys)
  let ?n = "b ^ length xs"
  from Cons.prems have bx: "from_base b xs < ?n" and by': "from_base b ys < ?n"
    using from_base_bound [of b xs] from_base_bound [of b ys] Cons.hyps by simp_all
  from Cons.prems(3) have eq: "x * ?n + from_base b xs = y * ?n + from_base b ys"
    using Cons.hyps by (simp add: from_base_Cons)
  from bx have n0: "?n \<noteq> 0" by (cases "?n = 0") simp_all
  from bx n0 have "(x * ?n + from_base b xs) div ?n = x" by simp
  moreover from by' n0 have "(y * ?n + from_base b ys) div ?n = y" by simp
  ultimately have xy: "x = y" using eq by simp
  with eq have "from_base b xs = from_base b ys" by simp
  with Cons xy show ?case by simp
qed

subsection \<open>The value kept by the loops of ConvertBits\<close>

lemma and_mask_mod: "(x::nat) AND mask n = x mod 2 ^ n"
  by (simp add: take_bit_eq_mod flip: take_bit_eq_mask)

lemma and_maxv: "x AND ConvertBits_maxv t = x mod 2 ^ t"
  using and_mask_mod [of x t] by (simp add: ConvertBits_maxv_def mask_eq_exp_minus_1)

lemma and_max_acc: "x AND ConvertBits_max_acc f t = x mod 2 ^ (f + t - 1)"
  using and_mask_mod [of x "f + t - 1"]
  by (simp add: ConvertBits_max_acc_def mask_eq_exp_minus_1)

lemma push_bit_or_add:
  fixes x a :: nat
  assumes "x < 2 ^ f"
  shows "push_bit f a OR x = a * 2 ^ f + x"
proof -
  from assms have x: "take_bit f x = x" by (simp add: take_bit_nat_eq_self)
  have "push_bit f a + x = push_bit f a OR x"
    by (rule disjunctive_add_eq_or, rule bit_eqI) (subst x [symmetric], simp add: bit_simps)
  then show ?thesis by (simp add: push_bit_eq_mult)
qed

lemma mod_split_pow: "(a::nat) mod 2 ^ (k + t) = 2 ^ k * (a div 2 ^ k mod 2 ^ t) + a mod 2 ^ k"
  by (simp add: power_add mod_mult2_eq)

lemma ConvertBits_inner_value:
  assumes "0 < t"
  shows "\<exists>bits' out'. ConvertBits_inner t acc bits out = Some (bits', out')
           \<and> bits' < t
           \<and> bits' + t * length out' = bits + t * length out
           \<and> from_base (2 ^ t) out' * 2 ^ bits' + acc mod 2 ^ bits'
               = from_base (2 ^ t) out * 2 ^ bits + acc mod 2 ^ bits
           \<and> (list_all (\<lambda>d. d < 2 ^ t) out \<longrightarrow> list_all (\<lambda>d. d < 2 ^ t) out')"
  using assms
proof (induction t acc bits out rule: ConvertBits_inner.induct)
  case (1 tobits acc bits out)
  show ?case
  proof (cases "tobits \<le> bits")
    case False
    with "1.prems" show ?thesis by (simp add: ConvertBits_inner.simps [of tobits acc bits])
  next
    case True
    let ?d = "drop_bit (bits - tobits) acc AND ConvertBits_maxv tobits"
    have d: "?d = acc div 2 ^ (bits - tobits) mod 2 ^ tobits"
      by (simp add: and_maxv drop_bit_eq_div)
    from "1.prems" True have ne: "tobits \<noteq> 0" by simp
    from "1.IH" [OF ne True "1.prems"] obtain bits' out'
      where r: "ConvertBits_inner tobits acc (bits - tobits) (out @ [?d]) = Some (bits', out')"
        and b: "bits' < tobits"
        and l: "bits' + tobits * length out' = bits - tobits + tobits * length (out @ [?d])"
        and v: "from_base (2 ^ tobits) out' * 2 ^ bits' + acc mod 2 ^ bits'
                  = from_base (2 ^ tobits) (out @ [?d]) * 2 ^ (bits - tobits)
                    + acc mod 2 ^ (bits - tobits)"
        and a: "list_all (\<lambda>d. d < 2 ^ tobits) (out @ [?d])
                  \<longrightarrow> list_all (\<lambda>d. d < 2 ^ tobits) out'"
      by blast
    from True have cancel: "bits - tobits + tobits = bits" by simp
    have split: "acc mod 2 ^ bits
                   = 2 ^ (bits - tobits) * ?d + acc mod 2 ^ (bits - tobits)"
      unfolding d using mod_split_pow [of acc "bits - tobits" tobits] by (simp only: cancel)
    have pw: "(2::nat) ^ bits = 2 ^ tobits * 2 ^ (bits - tobits)"
      using True by (simp flip: power_add)
    have "from_base (2 ^ tobits) out' * 2 ^ bits' + acc mod 2 ^ bits'
            = (from_base (2 ^ tobits) out * 2 ^ tobits + ?d) * 2 ^ (bits - tobits)
              + acc mod 2 ^ (bits - tobits)"
      using v by (simp only: from_base_snoc)
    also have "\<dots> = from_base (2 ^ tobits) out * (2 ^ tobits * 2 ^ (bits - tobits))
                     + (2 ^ (bits - tobits) * ?d + acc mod 2 ^ (bits - tobits))"
      by (simp only: algebra_simps)
    also have "\<dots> = from_base (2 ^ tobits) out * 2 ^ bits + acc mod 2 ^ bits"
      by (simp only: pw [symmetric] split [symmetric])
    finally have v': "from_base (2 ^ tobits) out' * 2 ^ bits' + acc mod 2 ^ bits'
                = from_base (2 ^ tobits) out * 2 ^ bits + acc mod 2 ^ bits" .
    have dlt: "?d < 2 ^ tobits" by (simp add: d)
    from r b l v' a dlt True "1.prems" show ?thesis
      by (simp add: ConvertBits_inner.simps [of tobits acc bits])
  qed
qed

lemma ConvertBits_outer_value:
  assumes "0 < t" "list_all (\<lambda>x. x < 2 ^ f) xs" "bits < t"
  shows "\<exists>acc' bits' out'. ConvertBits_outer f t acc bits out xs = Some (acc', bits', out')
           \<and> bits' < t
           \<and> bits' + t * length out' = bits + t * length out + f * length xs
           \<and> from_base (2 ^ t) out' * 2 ^ bits' + acc' mod 2 ^ bits'
               = (from_base (2 ^ t) out * 2 ^ bits + acc mod 2 ^ bits) * 2 ^ (f * length xs)
                 + from_base (2 ^ f) xs
           \<and> (list_all (\<lambda>d. d < 2 ^ t) out \<longrightarrow> list_all (\<lambda>d. d < 2 ^ t) out')"
  using assms
proof (induction xs arbitrary: acc bits out)
  case Nil
  then show ?case by simp
next
  case (Cons x xs)
  let ?acc1 = "(push_bit f acc OR x) AND ConvertBits_max_acc f t"
  from Cons.prems have x: "x < 2 ^ f" and xs: "list_all (\<lambda>x. x < 2 ^ f) xs" by simp_all
  have acc1: "?acc1 = (acc * 2 ^ f + x) mod 2 ^ (f + t - 1)"
    by (simp add: and_max_acc push_bit_or_add [OF x])
  from Cons.prems(3) have le: "bits + f \<le> f + t - 1" by simp
  have low: "?acc1 mod 2 ^ (bits + f) = 2 ^ f * (acc mod 2 ^ bits) + x"
  proof -
    from le have "(2::nat) ^ (bits + f) dvd 2 ^ (f + t - 1)" by (rule le_imp_power_dvd)
    then have "?acc1 mod 2 ^ (bits + f) = (acc * 2 ^ f + x) mod 2 ^ (bits + f)"
      unfolding acc1 by (rule mod_mod_cancel)
    also have "\<dots> = 2 ^ f * ((acc * 2 ^ f + x) div 2 ^ f mod 2 ^ bits)
                      + (acc * 2 ^ f + x) mod 2 ^ f"
      using mod_split_pow [of "acc * 2 ^ f + x" f bits] by (simp add: add.commute)
    also have "\<dots> = 2 ^ f * (acc mod 2 ^ bits) + x"
      using x by simp
    finally show ?thesis .
  qed
  from ConvertBits_inner_value [OF Cons.prems(1), of ?acc1 "bits + f" out]
  obtain bits1 out1
    where r1: "ConvertBits_inner t ?acc1 (bits + f) out = Some (bits1, out1)"
      and b1: "bits1 < t"
      and l1: "bits1 + t * length out1 = bits + f + t * length out"
      and v1: "from_base (2 ^ t) out1 * 2 ^ bits1 + ?acc1 mod 2 ^ bits1
                 = from_base (2 ^ t) out * 2 ^ (bits + f) + ?acc1 mod 2 ^ (bits + f)"
      and a1: "list_all (\<lambda>d. d < 2 ^ t) out \<longrightarrow> list_all (\<lambda>d. d < 2 ^ t) out1"
    by blast
  from Cons.IH [OF Cons.prems(1) xs b1, of ?acc1 out1] obtain acc' bits' out'
    where r: "ConvertBits_outer f t ?acc1 bits1 out1 xs = Some (acc', bits', out')"
      and b: "bits' < t"
      and l: "bits' + t * length out' = bits1 + t * length out1 + f * length xs"
      and v: "from_base (2 ^ t) out' * 2 ^ bits' + acc' mod 2 ^ bits'
                = (from_base (2 ^ t) out1 * 2 ^ bits1 + ?acc1 mod 2 ^ bits1)
                    * 2 ^ (f * length xs) + from_base (2 ^ f) xs"
      and a: "list_all (\<lambda>d. d < 2 ^ t) out1 \<longrightarrow> list_all (\<lambda>d. d < 2 ^ t) out'"
    by blast
  have run: "ConvertBits_outer f t acc bits out (x # xs) = Some (acc', bits', out')"
    using r1 r by (simp add: Let_def)
  have len: "bits' + t * length out' = bits + t * length out + f * length (x # xs)"
    using l l1 by (simp add: algebra_simps)
  have val: "from_base (2 ^ t) out' * 2 ^ bits' + acc' mod 2 ^ bits'
               = (from_base (2 ^ t) out * 2 ^ bits + acc mod 2 ^ bits)
                   * 2 ^ (f * length (x # xs)) + from_base (2 ^ f) (x # xs)"
    unfolding v v1 low from_base_Cons
    by (simp add: algebra_simps power_add power_mult)
  from run b len val a a1 show ?case by blast
qed


lemma ConvertBits_inner_returns:
  "0 < t \<Longrightarrow> \<exists>r. ConvertBits_inner t acc bits out = Some r"
  using ConvertBits_inner_value [of t acc bits out] by blast

lemma ConvertBits_outer_returns:
  "0 < t \<Longrightarrow> \<exists>r. ConvertBits_outer f t acc bits out xs = Some r"
proof (induction xs arbitrary: acc bits out)
  case Nil
  show ?case by simp
next
  case (Cons x xs)
  from ConvertBits_inner_returns [OF Cons.prems]
  obtain r where "ConvertBits_inner t ((push_bit f acc OR x) AND ConvertBits_max_acc f t)
                    (bits + f) out = Some r"
    by blast
  with Cons.IH [OF Cons.prems] show ?case by (cases r) (simp add: Let_def)
qed

lemma ConvertBits_returns:
  "0 < tobits \<Longrightarrow> \<exists>ok out. ConvertBits frombits tobits pad input = Some (ok, out)"
  using ConvertBits_outer_returns [of tobits frombits 0 0 "[]" input]
  by (auto simp: ConvertBits_def)

lemma residual_value:
  assumes "r < t"
  shows "push_bit (t - r) acc AND ConvertBits_maxv t = 2 ^ (t - r) * (acc mod 2 ^ r)"
proof -
  from assms have "(2::nat) ^ t = 2 ^ (t - r) * 2 ^ r" by (simp flip: power_add)
  then show ?thesis
    by (simp add: and_maxv push_bit_eq_mult mult.commute [of acc])
qed

lemma ConvertBits_pad_value:
  assumes t: "0 < t" and xs: "list_all (\<lambda>x. x < 2 ^ f) xs"
  shows "\<exists>ys p. ConvertBits f t True xs = Some (True, ys)
           \<and> list_all (\<lambda>d. d < 2 ^ t) ys \<and> p < t
           \<and> t * length ys = f * length xs + p
           \<and> from_base (2 ^ t) ys = from_base (2 ^ f) xs * 2 ^ p"
proof -
  from ConvertBits_outer_value [OF t xs t, of 0 "[]"] obtain acc r out
    where run: "ConvertBits_outer f t 0 0 [] xs = Some (acc, r, out)"
      and r: "r < t"
      and len: "r + t * length out = f * length xs"
      and val: "from_base (2 ^ t) out * 2 ^ r + acc mod 2 ^ r = from_base (2 ^ f) xs"
      and all: "list_all (\<lambda>d. d < 2 ^ t) out"
    by auto
  show ?thesis
  proof (cases "r = 0")
    case True
    with run r len val all show ?thesis
      by (intro exI [of _ out] exI [of _ 0]) (simp add: ConvertBits_def mult.commute)
  next
    case False
    let ?d = "push_bit (t - r) acc AND ConvertBits_maxv t"
    have d: "?d = 2 ^ (t - r) * (acc mod 2 ^ r)" by (rule residual_value [OF r])
    have dlt: "?d < 2 ^ t" by (simp add: and_maxv)
    from r have pw: "(2::nat) ^ t = 2 ^ r * 2 ^ (t - r)" by (simp flip: power_add)
    have "from_base (2 ^ t) (out @ [?d])
            = from_base (2 ^ t) out * (2 ^ r * 2 ^ (t - r)) + 2 ^ (t - r) * (acc mod 2 ^ r)"
      by (simp only: from_base_snoc d pw [symmetric])
    also have "\<dots> = (from_base (2 ^ t) out * 2 ^ r + acc mod 2 ^ r) * 2 ^ (t - r)"
      by (simp only: algebra_simps)
    finally have v: "from_base (2 ^ t) (out @ [?d]) = from_base (2 ^ f) xs * 2 ^ (t - r)"
      by (simp only: val)
    from len r False have l: "t * length (out @ [?d]) = f * length xs + (t - r)"
      by (simp add: algebra_simps)
    from False r have p: "t - r < t" by simp
    have res: "ConvertBits f t True xs = Some (True, out @ [?d])"
      using run False by (simp add: ConvertBits_def)
    from res all dlt p l v show ?thesis
      by (intro exI [of _ "out @ [?d]"] exI [of _ "t - r"]) simp
  qed
qed

lemma ConvertBits_nopad_value:
  assumes t: "0 < t" and ys: "list_all (\<lambda>x. x < 2 ^ f) ys"
  shows "\<exists>acc r out. ConvertBits f t False ys = Some (r < f \<and> acc mod 2 ^ r = 0, out)
           \<and> r < t \<and> r + t * length out = f * length ys
           \<and> from_base (2 ^ t) out * 2 ^ r + acc mod 2 ^ r = from_base (2 ^ f) ys
           \<and> list_all (\<lambda>d. d < 2 ^ t) out"
proof -
  from ConvertBits_outer_value [OF t ys t, of 0 "[]"] obtain acc r out
    where run: "ConvertBits_outer f t 0 0 [] ys = Some (acc, r, out)"
      and r: "r < t"
      and len: "r + t * length out = f * length ys"
      and val: "from_base (2 ^ t) out * 2 ^ r + acc mod 2 ^ r = from_base (2 ^ f) ys"
      and all: "list_all (\<lambda>d. d < 2 ^ t) out"
    by auto
  have "ConvertBits f t False ys = Some (r < f \<and> acc mod 2 ^ r = 0, out)"
    using run by (auto simp: ConvertBits_def residual_value [OF r])
  with r len val all show ?thesis by blast
qed

lemma roundtrip_counts:
  assumes len: "5 * (L::nat) = 8 * n + p" and len': "r + 8 * lo = 5 * L"
    and r: "r < 8" and p: "p < 5"
  shows "r = p" "lo = n" "L = (8 * n + 4) div 5"
proof -
  from len len' have e: "r + 8 * lo = p + 8 * n" by simp
  then have "(r + 8 * lo) mod 8 = (p + 8 * n) mod 8" by simp
  with r p show rp: "r = p" by simp
  with e show "lo = n" by simp
  from len p have "8 * n + 4 = L * 5 + (4 - p)" by simp
  then have "(8 * n + 4) div 5 = (L * 5 + (4 - p)) div 5" by simp
  also from p have "\<dots> = L" by simp
  finally show "L = (8 * n + 4) div 5" by simp
qed

lemma byte_less_256: "unat (b :: byte) < 256"
  using unsigned_less [of b] by simp

lemma unat_of_nat_byte: "n < 256 \<Longrightarrow> unat (of_nat n :: byte) = n"
  by (simp add: unat_of_nat)

lemma ConvertBits_8_5_roundtrip:
  assumes x: "list_all (\<lambda>v. v < 256) x"
  shows "\<exists>ys. ConvertBits 8 5 True x = Some (True, ys)
           \<and> ConvertBits 5 8 False ys = Some (True, x)
           \<and> list_all (\<lambda>d. d < 32) ys \<and> length ys = (8 * length x + 4) div 5"
proof -
  from x have x': "list_all (\<lambda>v. v < 2 ^ 8) x" by simp
  from ConvertBits_pad_value [of 5 8 x, OF _ x'] obtain ys p
    where enc: "ConvertBits 8 5 True x = Some (True, ys)"
      and ys: "list_all (\<lambda>d. d < 2 ^ 5) ys" and p: "p < 5"
      and len: "5 * length ys = 8 * length x + p"
      and val: "from_base (2 ^ 5) ys = from_base (2 ^ 8) x * 2 ^ p"
    by auto
  from ConvertBits_nopad_value [of 8 5 ys, OF _ ys] obtain acc r out
    where dec: "ConvertBits 5 8 False ys = Some (r < 5 \<and> acc mod 2 ^ r = 0, out)"
      and r: "r < 8" and len': "r + 8 * length out = 5 * length ys"
      and val': "from_base (2 ^ 8) out * 2 ^ r + acc mod 2 ^ r = from_base (2 ^ 5) ys"
      and out: "list_all (\<lambda>d. d < 2 ^ 8) out"
    by auto
  from roundtrip_counts [OF len len' [symmetric, THEN sym] r p]
  have rp: "r = p" and lo: "length out = length x"
    and ly: "length ys = (8 * length x + 4) div 5" by simp_all
  from val val' rp
  have eq: "from_base (2 ^ 8) out * 2 ^ p + acc mod 2 ^ p = from_base (2 ^ 8) x * 2 ^ p"
    by simp
  then have "(from_base (2 ^ 8) out * 2 ^ p + acc mod 2 ^ p) mod 2 ^ p
               = (from_base (2 ^ 8) x * 2 ^ p) mod 2 ^ p"
    by simp
  then have z: "acc mod 2 ^ p = 0" by simp
  with eq have "from_base (2 ^ 8) out = from_base (2 ^ 8) x" by simp
  from from_base_inj [OF lo out x' this] have ox: "out = x" .
  from rp p z have "(r < 5 \<and> acc mod 2 ^ r = 0) = True" by simp
  with dec ox have d2: "ConvertBits 5 8 False ys = Some (True, x)" by (simp only:)
  from ys have y32: "list_all (\<lambda>d. d < 32) ys" by simp
  from enc d2 y32 ly show ?thesis by blast
qed

text \<open>
  Claim C3. For every byte sequence x, ConvertBits with frombits 8, tobits 5 and padding
  succeeds on x and emits a sequence ys of 5-bit symbols: every element of ys is below
  32, and there are (8 * |x| + 4) div 5 of them, the number of 5-bit groups that cover
  the 8 * |x| bits of x. ConvertBits with frombits 5, tobits 8 and no padding succeeds
  on ys and emits exactly x.
\<close>

theorem ConvertBits_8_to_5_to_8_identity:
  fixes x :: "byte list"
  shows "\<exists>ys. ConvertBits 8 5 True (map unat x) = Some (True, ys)
           \<and> list_all (\<lambda>d. d < 32) ys
           \<and> length ys = (8 * length x + 4) div 5
           \<and> ConvertBits 5 8 False ys = Some (True, map unat x)"
proof -
  have "list_all (\<lambda>v. v < 256) (map unat x)"
    by (simp add: list_all_iff byte_less_256)
  from ConvertBits_8_5_roundtrip [OF this] obtain ys
    where "ConvertBits 8 5 True (map unat x) = Some (True, ys)"
      and "ConvertBits 5 8 False ys = Some (True, map unat x)"
      and "list_all (\<lambda>d. d < 32) ys"
      and "length ys = (8 * length (map unat x) + 4) div 5"
    by blast
  then show ?thesis by (intro exI [of _ ys]) simp
qed

lemma ConvertBits_push_roundtrip:
  "\<exists>syms. ConvertBits_push 8 5 True d prog = (True, d @ syms)
      \<and> ConvertBits_push 5 8 False [] syms = (True, prog)
      \<and> list_all (\<lambda>s. unat s < 32) syms
      \<and> length syms = (8 * length prog + 4) div 5"
proof -
  have "list_all (\<lambda>v. v < 256) (map unat prog)"
    by (simp add: list_all_iff byte_less_256)
  from ConvertBits_8_5_roundtrip [OF this] obtain ys
    where enc: "ConvertBits 8 5 True (map unat prog) = Some (True, ys)"
      and dec: "ConvertBits 5 8 False ys = Some (True, map unat prog)"
      and ys: "list_all (\<lambda>d. d < 32) ys"
      and len: "length ys = (8 * length prog + 4) div 5"
    by auto
  let ?syms = "map of_nat ys :: byte list"
  from ys have unat_syms: "map unat ?syms = ys"
    by (induction ys) (simp_all add: unat_of_nat_byte)
  have prog: "map of_nat (map unat prog) = prog"
    by (induction prog) simp_all
  from ys have s32: "list_all (\<lambda>s. unat s < 32) ?syms"
    by (induction ys) (simp_all add: unat_of_nat_byte)
  have e: "ConvertBits_push 8 5 True d prog = (True, d @ ?syms)"
    using enc by (simp add: ConvertBits_push_def)
  have "ConvertBits_push 5 8 False [] ?syms = (True, map of_nat (map unat prog))"
    unfolding ConvertBits_push_def unat_syms dec by simp
  with prog have dd: "ConvertBits_push 5 8 False [] ?syms = (True, prog)" by simp
  from len have l: "length ?syms = (8 * length prog + 4) div 5" by simp
  from e dd s32 l show ?thesis by blast
qed

subsection \<open>ConvertBits against the algorithm of the spec\<close>

text \<open>
  The algorithm of section 4.A, following the words of the spec: an accumulator of
  \<open>width\<close> bits (the spec asks for at least from_bits + to_bits) and a count of buffered
  bits; for each symbol, shift the accumulator left by from_bits, OR in the symbol and
  add from_bits to the count; while the count is at least to_bits, subtract to_bits from
  the count and emit (acc >> count) & mask(to_bits). At the end, with padding and a
  count above 0, emit (acc << (to_bits - count)) & mask(to_bits); without padding, fail
  when the count is at least from_bits or those residual bits are not zero.
\<close>

function convert_bits_spec_emit :: "nat \<Rightarrow> nat \<Rightarrow> nat \<Rightarrow> nat list \<Rightarrow> nat \<times> nat list" where
  "convert_bits_spec_emit to_bits acc count emitted =
     (if 0 < to_bits \<and> to_bits \<le> count
      then convert_bits_spec_emit to_bits acc (count - to_bits)
             (emitted @ [drop_bit (count - to_bits) acc AND mask to_bits])
      else (count, emitted))"
  by pat_completeness auto
termination
  by (relation "measure (\<lambda>(to_bits, acc, count, emitted). count)") auto

declare convert_bits_spec_emit.simps [simp del]

fun convert_bits_spec_run ::
  "nat \<Rightarrow> nat \<Rightarrow> nat \<Rightarrow> nat \<times> nat \<times> nat list \<Rightarrow> nat list \<Rightarrow> nat \<times> nat \<times> nat list" where
  "convert_bits_spec_run width from_bits to_bits (acc, count, emitted) [] = (acc, count, emitted)"
| "convert_bits_spec_run width from_bits to_bits (acc, count, emitted) (symbol # input) =
     (let acc1 = take_bit width (push_bit from_bits acc OR symbol);
          (count1, emitted1) = convert_bits_spec_emit to_bits acc1 (count + from_bits) emitted
      in convert_bits_spec_run width from_bits to_bits (acc1, count1, emitted1) input)"

definition convert_bits_spec :: "nat \<Rightarrow> nat \<Rightarrow> nat \<Rightarrow> bool \<Rightarrow> nat list \<Rightarrow> nat list option" where
  "convert_bits_spec width from_bits to_bits pad input =
     (let (acc, count, emitted) = convert_bits_spec_run width from_bits to_bits (0, 0, []) input
      in if pad
         then Some (if count > 0
                    then emitted @ [push_bit (to_bits - count) acc AND mask to_bits]
                    else emitted)
         else if count \<ge> from_bits \<or> (push_bit (to_bits - count) acc AND mask to_bits) \<noteq> 0
         then None
         else Some emitted)"

lemma maxv_mask: "ConvertBits_maxv t = mask t"
  by (simp add: ConvertBits_maxv_def mask_eq_exp_minus_1)

lemma max_acc_mask: "ConvertBits_max_acc f t = mask (f + t - 1)"
  by (simp add: ConvertBits_max_acc_def mask_eq_exp_minus_1)

lemma emit_window:
  fixes a :: nat
  assumes "k + t \<le> K"
  shows "drop_bit k (take_bit K a) AND mask t = drop_bit k a AND mask t"
  using assms by (intro bit_eqI) (auto simp: bit_simps)

lemma residual_window:
  fixes a :: nat
  assumes "r \<le> K"
  shows "push_bit (t - r) (take_bit K a) AND mask t = push_bit (t - r) a AND mask t"
  using assms by (intro bit_eqI) (auto simp: bit_simps)

lemma absorb_window:
  fixes a x :: nat
  assumes "K \<le> width"
  shows "(push_bit f (take_bit K a) OR x) AND mask K
           = take_bit K (take_bit width (push_bit f a OR x))"
  using assms by (intro bit_eqI) (auto simp: bit_simps)

lemma ConvertBits_inner_refines:
  assumes "0 < t" "bits \<le> K"
  shows "ConvertBits_inner t (take_bit K a) bits out
           = Some (convert_bits_spec_emit t a bits out)"
  using assms(2)
proof (induction bits arbitrary: out rule: less_induct)
  case (less bits)
  show ?case
  proof (cases "t \<le> bits")
    case False
    with assms(1) show ?thesis
      by (simp add: ConvertBits_inner.simps [of t _ bits] convert_bits_spec_emit.simps [of t _ bits])
  next
    case True
    with assms(1) have lt: "bits - t < bits" by simp
    from less.prems have le: "bits - t \<le> K" by simp
    from True less.prems have win: "bits - t + t \<le> K" by simp
    show ?thesis
      using True assms(1) less.IH [OF lt le]
      by (simp add: ConvertBits_inner.simps [of t _ bits] convert_bits_spec_emit.simps [of t _ bits]
            maxv_mask emit_window [OF win])
  qed
qed

lemma convert_bits_spec_emit_count:
  assumes "0 < t"
  shows "fst (convert_bits_spec_emit t a bits out) < t"
proof -
  from ConvertBits_inner_value [OF assms, of "take_bit bits a" bits out]
    ConvertBits_inner_refines [OF assms order_refl, of bits a out]
  show ?thesis by auto
qed

lemma ConvertBits_outer_refines:
  assumes t: "0 < t" and w: "K \<le> width" and K: "K = f + t - 1" and b: "bits < t"
  shows "\<exists>acc' bits' out'.
           convert_bits_spec_run width f t (a, bits, out) xs = (acc', bits', out')
           \<and> ConvertBits_outer f t (take_bit K a) bits out xs
               = Some (take_bit K acc', bits', out')
           \<and> bits' < t"
  using b
proof (induction xs arbitrary: a bits out)
  case Nil
  then show ?case by simp
next
  case (Cons x xs)
  let ?a1 = "take_bit width (push_bit f a OR x)"
  have acc1: "(push_bit f (take_bit K a) OR x) AND ConvertBits_max_acc f t = take_bit K ?a1"
    unfolding max_acc_mask K [symmetric] by (rule absorb_window [OF w])
  from Cons.prems K have le: "bits + f \<le> K" by simp
  obtain bits1 out1 where e: "convert_bits_spec_emit t ?a1 (bits + f) out = (bits1, out1)"
    by (cases "convert_bits_spec_emit t ?a1 (bits + f) out") auto
  from convert_bits_spec_emit_count [OF t, of ?a1 "bits + f" out] e have b1: "bits1 < t"
    by simp
  from Cons.IH [OF b1, of ?a1 out1] obtain acc' bits' out'
    where r: "convert_bits_spec_run width f t (?a1, bits1, out1) xs = (acc', bits', out')"
      and c: "ConvertBits_outer f t (take_bit K ?a1) bits1 out1 xs
                = Some (take_bit K acc', bits', out')"
      and b': "bits' < t"
    by blast
  have "convert_bits_spec_run width f t (a, bits, out) (x # xs) = (acc', bits', out')"
    by (simp only: convert_bits_spec_run.simps Let_def e prod.case r)
  moreover have "ConvertBits_outer f t (take_bit K a) bits out (x # xs)
                   = Some (take_bit K acc', bits', out')"
    by (simp only: ConvertBits_outer.simps Let_def acc1 ConvertBits_inner_refines [OF t le] e
          option.case prod.case c)
  ultimately show ?case using b' by blast
qed

text \<open>
  Claim C4. ConvertBits without padding returns failure exactly when, after the whole
  input, the count of buffered bits of the spec's algorithm is at least from_bits or the
  residual bits (acc << (to_bits - count)) & mask(to_bits) are not zero; otherwise it
  returns success; in both cases it has emitted what the spec's algorithm emits. It
  holds for all widths from_bits, to_bits of at least 1, for an accumulator of the spec
  of any width of at least from_bits + to_bits, and for every input (the symbols below
  2^from_bits included).
\<close>

theorem ConvertBits_nopad_refines_spec:
  assumes "0 < frombits" "0 < tobits" "frombits + tobits \<le> width"
  shows "\<exists>acc count emitted.
           convert_bits_spec_run width frombits tobits (0, 0, []) input = (acc, count, emitted)
           \<and> ConvertBits frombits tobits False input
               = Some (\<not> (count \<ge> frombits
                           \<or> (push_bit (tobits - count) acc AND mask tobits) \<noteq> 0),
                       emitted)
           \<and> (convert_bits_spec width frombits tobits False input
                = (if count \<ge> frombits
                      \<or> (push_bit (tobits - count) acc AND mask tobits) \<noteq> 0
                   then None else Some emitted))"
proof -
  define K where "K = frombits + tobits - 1"
  from assms have w: "K \<le> width" by (simp add: K_def)
  have z: "take_bit K (0::nat) = 0" by simp
  from ConvertBits_outer_refines [OF assms(2) w K_def assms(2), of 0 "[]" input]
  obtain acc count emitted
    where r: "convert_bits_spec_run width frombits tobits (0, 0, []) input = (acc, count, emitted)"
      and c: "ConvertBits_outer frombits tobits 0 0 [] input = Some (take_bit K acc, count, emitted)"
      and b: "count < tobits"
    unfolding z by blast
  from b assms(1) have "count \<le> K" by (simp add: K_def)
  from residual_window [OF this, of tobits acc]
  have res: "push_bit (tobits - count) (take_bit K acc) AND ConvertBits_maxv tobits
               = push_bit (tobits - count) acc AND mask tobits"
    by (simp only: maxv_mask)
  have "ConvertBits frombits tobits False input
          = Some (\<not> (count \<ge> frombits
                      \<or> (push_bit (tobits - count) acc AND mask tobits) \<noteq> 0), emitted)"
    by (simp only: ConvertBits_def c option.case prod.case if_False res) simp
  moreover have "convert_bits_spec width frombits tobits False input
                = (if count \<ge> frombits
                      \<or> (push_bit (tobits - count) acc AND mask tobits) \<noteq> 0
                   then None else Some emitted)"
    by (simp only: convert_bits_spec_def r Let_def prod.case if_False)
  ultimately show ?thesis using r by blast
qed


theorem ConvertBits_nopad_refines_spec_witness:
  "ConvertBits 5 8 False [31, 28, 0, 17] = Some (False, [255, 1])
   \<and> convert_bits_spec 13 5 8 False [31, 28, 0, 17] = None
   \<and> ConvertBits 5 8 False [31, 28, 0, 16] = Some (True, [255, 1])
   \<and> convert_bits_spec 13 5 8 False [31, 28, 0, 16] = Some [255, 1]"
proof -
  have r1: "convert_bits_spec_run 13 5 8 (0, 0, []) [31, 28, 0, 17] = (4113, 4, [255, 1])"
    by (simp add: convert_bits_spec_emit.simps Let_def and_mask_mod)
  have r2: "convert_bits_spec_run 13 5 8 (0, 0, []) [31, 28, 0, 16] = (4112, 4, [255, 1])"
    by (simp add: convert_bits_spec_emit.simps Let_def and_mask_mod)
  have w: "(0::nat) < 5" "(0::nat) < 8" "(5::nat) + 8 \<le> 13" by simp_all
  from ConvertBits_nopad_refines_spec [OF w, of "[31, 28, 0, 17]"]
  have 1: "ConvertBits 5 8 False [31, 28, 0, 17] = Some (False, [255, 1])
             \<and> convert_bits_spec 13 5 8 False [31, 28, 0, 17] = None"
    unfolding r1 by (simp add: and_mask_mod del: convert_bits_spec_run.simps)
  from ConvertBits_nopad_refines_spec [OF w, of "[31, 28, 0, 16]"]
  have 2: "ConvertBits 5 8 False [31, 28, 0, 16] = Some (True, [255, 1])
             \<and> convert_bits_spec 13 5 8 False [31, 28, 0, 16] = Some [255, 1]"
    unfolding r2 by (simp add: and_mask_mod del: convert_bits_spec_run.simps)
  from 1 2 show ?thesis by simp
qed

subsection \<open>The shape of a multisig script\<close>

text \<open>
  The push instructions that carry a public key k of 33 or 65 bytes: the direct push
  (the opcode is the length), and OP_PUSHDATA1, OP_PUSHDATA2 and OP_PUSHDATA4 with the
  length in 1, 2 and 4 little-endian bytes.
\<close>

definition pubkey_pushes :: "valtype \<Rightarrow> byte list list" where
  "pubkey_pushes k =
     [of_nat (length k) # k,
      OP_PUSHDATA1 # of_nat (length k) # k,
      OP_PUSHDATA2 # of_nat (length k) # 0 # k,
      OP_PUSHDATA4 # of_nat (length k) # 0 # 0 # 0 # k]"

text \<open>
  A well-sized public key, in the words of the spec: 33 bytes with the first byte 2 or 3,
  or 65 bytes with the first byte 4, 6 or 7. It is written without GetLen and ValidSize;
  that ValidSize accepts exactly these keys is the lemma \<open>ValidSize_well_sized\<close>.
\<close>

definition well_sized :: "valtype \<Rightarrow> bool" where
  "well_sized k =
     ((length k = 33 \<and> (hd k = 2 \<or> hd k = 3))
      \<or> (length k = 65 \<and> (hd k = 4 \<or> hd k = 6 \<or> hd k = 7)))"

text \<open>
  The multisig shape: the small integer m, one push per key, the small integer n = number
  of keys, OP_CHECKMULTISIG, and nothing else; every key well-sized and 1 \<le> m \<le> n \<le> 16.
\<close>

definition multisig_shape :: "byte list \<Rightarrow> nat \<Rightarrow> valtype list \<Rightarrow> byte list list \<Rightarrow> bool" where
  "multisig_shape script m keys pushes =
     (script = [EncodeOP_N m] @ concat pushes @ [EncodeOP_N (length keys), OP_CHECKMULTISIG]
      \<and> list_all2 (\<lambda>p k. p \<in> set (pubkey_pushes k)) pushes keys
      \<and> list_all well_sized keys
      \<and> 1 \<le> m \<and> m \<le> length keys \<and> length keys \<le> 16)"

lemma ValidSize_well_sized: "ValidSize k = well_sized k"
  by (cases k) (auto simp: ValidSize_def GetLen_def well_sized_def size_defs)

lemma list_all_well_sized: "list_all well_sized keys = list_all ValidSize keys"
  by (induction keys) (simp_all add: ValidSize_well_sized)

lemma GetScriptOp_nonpush:
  assumes "GetScriptOp pc = Some (opc, d, pc')" "OP_PUSHDATA4 < opc"
  shows "pc = opc # pc' \<and> d = []"
  using assms by (cases pc) (auto simp: GetScriptOp_def Let_def split: if_splits)

lemma IsSmallInteger_nonpush: "IsSmallInteger opc \<Longrightarrow> OP_PUSHDATA4 < opc"
  by (simp add: IsSmallInteger_def opcode_defs) (simp add: word_le_nat_alt word_less_nat_alt)

lemma IsSmallInteger_unat: "IsSmallInteger opc = (81 \<le> unat opc \<and> unat opc \<le> 96)"
  by (simp add: IsSmallInteger_def opcode_defs word_le_nat_alt)

lemma Encode_Decode_OP_N:
  assumes "IsSmallInteger opc"
  shows "EncodeOP_N (DecodeOP_N opc) = opc"
proof -
  from assms have r: "81 \<le> unat opc" "unat opc \<le> 96" by (simp_all add: IsSmallInteger_unat)
  then have nz: "opc \<noteq> 0" by auto
  from nz have d: "DecodeOP_N opc = unat opc - 80"
    by (simp add: DecodeOP_N_def opcode_defs)
  from r have "unat OP_1 + (unat opc - 80) - 1 = unat opc" by (simp add: opcode_defs)
  then have "EncodeOP_N (unat opc - 80) = of_nat (unat opc)"
    using r by (simp only: EncodeOP_N_def) simp
  then show ?thesis by (simp add: d)
qed

lemma Decode_Encode_OP_N:
  assumes "1 \<le> n" "n \<le> 16"
  shows "IsSmallInteger (EncodeOP_N n) \<and> DecodeOP_N (EncodeOP_N n) = n"
proof -
  from assms have e: "EncodeOP_N n = of_nat (80 + n)"
    by (simp add: EncodeOP_N_def opcode_defs)
  from assms have u: "unat (of_nat (80 + n) :: byte) = 80 + n"
    by (intro unat_of_nat_byte) simp
  from u assms have nz: "(of_nat (80 + n) :: byte) \<noteq> 0"
    by (metis add_is_0 unat_0 zero_neq_numeral)
  from u assms have "IsSmallInteger (of_nat (80 + n))"
    unfolding IsSmallInteger_unat by (simp only:) simp
  moreover from u nz have "DecodeOP_N (of_nat (80 + n)) = n"
    unfolding DecodeOP_N_def opcode_defs by (simp only:) simp
  ultimately show ?thesis by (simp only: e)
qed


lemma GetScriptOp_nonpush_read:
  assumes "OP_PUSHDATA4 < opc"
  shows "GetScriptOp (opc # rest) = Some (opc, [], rest)"
proof -
  from assms have "\<not> opc \<le> OP_PUSHDATA4" by simp
  then show ?thesis by (simp add: GetScriptOp_def)
qed

lemma ValidSize_byte_length:
  assumes "ValidSize k"
  shows "unat (of_nat (length k) :: byte) = length k" "length k < 76"
  using ValidSize_length [OF assms] by (auto simp: unat_of_nat)

lemma GetScriptOp_of_push:
  assumes k: "ValidSize k" and p: "p \<in> set (pubkey_pushes k)"
  shows "\<exists>opc. GetScriptOp (p @ rest) = Some (opc, k, rest)"
proof -
  note len = ValidSize_byte_length [OF k]
  from len have lt: "(of_nat (length k) :: byte) < OP_PUSHDATA1"
    by (simp add: word_less_nat_alt opcode_defs)
  from lt have le: "(of_nat (length k) :: byte) \<le> OP_PUSHDATA4"
    by (simp add: word_less_nat_alt word_le_nat_alt opcode_defs)
  from p consider
      "p = of_nat (length k) # k"
    | "p = OP_PUSHDATA1 # of_nat (length k) # k"
    | "p = OP_PUSHDATA2 # of_nat (length k) # 0 # k"
    | "p = OP_PUSHDATA4 # of_nat (length k) # 0 # 0 # 0 # k"
    by (auto simp: pubkey_pushes_def)
  then show ?thesis
  proof cases
    case 1
    with lt le len show ?thesis by (simp add: GetScriptOp_def)
  next
    case 2
    with len show ?thesis by (simp add: GetScriptOp_def opcode_defs)
  next
    case 3
    with len show ?thesis by (simp add: GetScriptOp_def opcode_defs)
  next
    case 4
    with len show ?thesis by (simp add: GetScriptOp_def opcode_defs)
  qed
qed

lemma MatchMultisig_loop_shape:
  assumes "list_all2 (\<lambda>p k. p \<in> set (pubkey_pushes k)) pushes keys"
    and "list_all ValidSize keys" and "IsSmallInteger opn"
  shows "MatchMultisig_loop (concat pushes @ opn # rest) acc = (acc @ keys, opn, rest)"
  using assms
proof (induction pushes keys arbitrary: acc rule: list_all2_induct)
  case Nil
  from IsSmallInteger_nonpush [OF Nil.prems(2)]
  have "GetScriptOp (opn # rest) = Some (opn, [], rest)"
    by (rule GetScriptOp_nonpush_read)
  then show ?case
    by (simp add: MatchMultisig_loop.simps [of "opn # rest"] ValidSize_def)
next
  case (Cons p ps k ks)
  from Cons.prems have k: "ValidSize k" and ks: "list_all ValidSize ks" by simp_all
  from GetScriptOp_of_push [OF k Cons.hyps(1), of "concat ps @ opn # rest"]
  obtain opc where g: "GetScriptOp (p @ concat ps @ opn # rest)
                         = Some (opc, k, concat ps @ opn # rest)"
    by blast
  show ?case
    using Cons.IH [OF ks Cons.prems(2), of "acc @ [k]"] k g
    by (simp add: MatchMultisig_loop.simps [of "p @ concat ps @ opn # rest"])
qed

lemma MatchMultisig_of_shape:
  assumes "multisig_shape s m keys pushes"
  shows "MatchMultisig s = Some (m, keys)"
proof -
  from assms have s: "s = EncodeOP_N m # concat pushes @ [EncodeOP_N (length keys), OP_CHECKMULTISIG]"
    and p: "list_all2 (\<lambda>p k. p \<in> set (pubkey_pushes k)) pushes keys"
    and v: "list_all ValidSize keys"
    and m: "1 \<le> m" "m \<le> length keys" "length keys \<le> 16"
    by (simp_all add: multisig_shape_def list_all_well_sized)
  from m have m16: "m \<le> 16" and n1: "1 \<le> length keys" by simp_all
  note em = Decode_Encode_OP_N [OF m(1) m16]
  note en = Decode_Encode_OP_N [OF n1 m(3)]
  from em IsSmallInteger_nonpush
  have g: "GetScriptOp s = Some (EncodeOP_N m, [],
             concat pushes @ [EncodeOP_N (length keys), OP_CHECKMULTISIG])"
    unfolding s by (intro GetScriptOp_nonpush_read) simp
  have l: "MatchMultisig_loop (concat pushes @ [EncodeOP_N (length keys), OP_CHECKMULTISIG]) []
             = (keys, EncodeOP_N (length keys), [OP_CHECKMULTISIG])"
    using MatchMultisig_loop_shape [OF p v, of "EncodeOP_N (length keys)" "[OP_CHECKMULTISIG]" "[]"] en
    by simp
  have last: "last s = OP_CHECKMULTISIG" "\<not> length s < 1" by (simp_all add: s)
  show ?thesis
    unfolding MatchMultisig_def using last g l em en m
    by (simp add: Let_def)
qed


lemma take_drop_read:
  assumes "\<not> length pc < n" "d = take n pc" "r = drop n pc"
  shows "pc = d @ r \<and> length d = n"
  using assms by simp

lemma unat_zero_byte: "unat (b :: byte) = 0 \<Longrightarrow> b = 0"
  by (simp add: unat_eq_0)

lemma GetScriptOp_key_push:
  assumes g: "GetScriptOp it = Some (opc, d, it1)" and v: "ValidSize d"
  shows "\<exists>p \<in> set (pubkey_pushes d). it = p @ it1"
proof -
  from g obtain pc1 where it: "it = opc # pc1"
    by (cases it) (auto simp: GetScriptOp_def Let_def split: if_splits)
  from ValidSize_length [OF v] have n: "length d = 33 \<or> length d = 65" .
  have push: "opc \<le> OP_PUSHDATA4"
  proof (rule ccontr)
    assume "\<not> opc \<le> OP_PUSHDATA4"
    then have "OP_PUSHDATA4 < opc" by simp
    from GetScriptOp_nonpush [OF g this] v show False by (simp add: ValidSize_def)
  qed
  from push have u: "unat opc \<le> 78" by (simp add: opcode_defs word_le_nat_alt)
  have byte_eq: "opc = of_nat n" if "unat opc = n" for n
  proof -
    have "of_nat (unat opc) = opc" by simp
    with that show ?thesis by simp
  qed
  from u consider "unat opc < 76" | "unat opc = 76" | "unat opc = 77" | "unat opc = 78"
    by linarith
  then consider "opc < OP_PUSHDATA1" | "opc = OP_PUSHDATA1" | "opc = OP_PUSHDATA2"
    | "opc = OP_PUSHDATA4"
  proof cases
    case 1
    then have "opc < OP_PUSHDATA1" by (simp add: opcode_defs word_less_nat_alt)
    then show ?thesis by (rule that(1))
  next
    case 2
    from byte_eq [OF this] have "opc = OP_PUSHDATA1" by (simp add: opcode_defs)
    then show ?thesis by (rule that(2))
  next
    case 3
    from byte_eq [OF this] have "opc = OP_PUSHDATA2" by (simp add: opcode_defs)
    then show ?thesis by (rule that(3))
  next
    case 4
    from byte_eq [OF this] have "opc = OP_PUSHDATA4" by (simp add: opcode_defs)
    then show ?thesis by (rule that(4))
  qed
  then show ?thesis
  proof cases
    case 1
    with g push have "\<not> length pc1 < unat opc" "d = take (unat opc) pc1" "it1 = drop (unat opc) pc1"
      by (auto simp: it GetScriptOp_def Let_def split: if_splits)
    from take_drop_read [OF this] have "pc1 = d @ it1" "of_nat (length d) = opc" by auto
    then show ?thesis by (simp add: it pubkey_pushes_def)
  next
    case 2
    with g obtain l pc2 where pc1: "pc1 = l # pc2"
      by (cases pc1) (auto simp: it GetScriptOp_def Let_def opcode_defs split: if_splits)
    with 2 g have "\<not> length pc2 < unat l" "d = take (unat l) pc2" "it1 = drop (unat l) pc2"
      by (auto simp: it GetScriptOp_def Let_def opcode_defs split: if_splits)
    from take_drop_read [OF this] have "pc2 = d @ it1" "of_nat (length d) = l" by auto
    then show ?thesis by (simp add: it pc1 2 pubkey_pushes_def)
  next
    case 3
    with g obtain l0 l1 pc2 where pc1: "pc1 = l0 # l1 # pc2"
      by (cases pc1; cases "tl pc1")
         (auto simp: it GetScriptOp_def Let_def opcode_defs split: if_splits)
    let ?n = "unat l0 + 256 * unat l1"
    from pc1 3 g have "\<not> length pc2 < ?n" "d = take ?n pc2" "it1 = drop ?n pc2"
      by (auto simp: it GetScriptOp_def Let_def opcode_defs split: if_splits)
    from take_drop_read [OF this] have r: "pc2 = d @ it1" "length d = ?n" by auto
    from r(2) n have "unat l1 = 0" by auto
    then have l1: "l1 = 0" by (rule unat_zero_byte)
    with r(2) have "of_nat (length d) = l0" by simp
    with r(1) l1 show ?thesis by (simp add: it pc1 3 pubkey_pushes_def)
  next
    case 4
    with g obtain l0 l1 l2 l3 pc2 where pc1: "pc1 = l0 # l1 # l2 # l3 # pc2"
      by (cases pc1; cases "tl pc1"; cases "tl (tl pc1)"; cases "tl (tl (tl pc1))")
         (auto simp: it GetScriptOp_def Let_def opcode_defs split: if_splits)
    let ?n = "unat l0 + 256 * (unat l1 + 256 * (unat l2 + 256 * unat l3))"
    from pc1 4 g have "\<not> length pc2 < ?n" "d = take ?n pc2" "it1 = drop ?n pc2"
      by (auto simp: it GetScriptOp_def Let_def opcode_defs split: if_splits)
    from take_drop_read [OF this] have r: "pc2 = d @ it1" "length d = ?n" by auto
    from r(2) n have "unat l1 = 0 \<and> unat l2 = 0 \<and> unat l3 = 0" by auto
    then have z: "l1 = 0" "l2 = 0" "l3 = 0" by (auto intro: unat_zero_byte)
    with r(2) have "of_nat (length d) = l0" by simp
    with r(1) z show ?thesis by (simp add: it pc1 4 pubkey_pushes_def)
  qed
qed


lemma not_small_INVALIDOPCODE: "\<not> IsSmallInteger OP_INVALIDOPCODE"
  by (simp add: IsSmallInteger_unat opcode_defs)

lemma MatchMultisig_loop_pushes:
  "MatchMultisig_loop it acc = (keys, opc, it') \<Longrightarrow> IsSmallInteger opc \<Longrightarrow>
     \<exists>ks pushes. keys = acc @ ks \<and> it = concat pushes @ opc # it'
        \<and> list_all2 (\<lambda>p k. p \<in> set (pubkey_pushes k)) pushes ks
        \<and> list_all ValidSize ks"
proof (induction it acc arbitrary: keys opc it' rule: MatchMultisig_loop.induct)
  case (1 it pubkeys)
  show ?case
  proof (cases "GetScriptOp it")
    case None
    with "1.prems" not_small_INVALIDOPCODE show ?thesis
      by (simp add: MatchMultisig_loop.simps [of it])
  next
    case (Some r)
    obtain opcode d it1 where r: "r = (opcode, d, it1)" by (cases r) auto
    show ?thesis
    proof (cases "ValidSize d")
      case True
      with Some r "1.prems" have "MatchMultisig_loop it1 (pubkeys @ [d]) = (keys, opc, it')"
        by (simp add: MatchMultisig_loop.simps [of it])
      from "1.IH" [OF Some r [symmetric] refl True this "1.prems"(2)]
      obtain ks pushes where ih: "keys = (pubkeys @ [d]) @ ks" "it1 = concat pushes @ opc # it'"
        "list_all2 (\<lambda>p k. p \<in> set (pubkey_pushes k)) pushes ks" "list_all ValidSize ks"
        by blast
      from GetScriptOp_key_push [OF Some [unfolded r] True]
      obtain p where p: "p \<in> set (pubkey_pushes d)" "it = p @ it1" by blast
      from ih p True show ?thesis
        by (intro exI [of _ "d # ks"] exI [of _ "p # pushes"]) simp
    next
      case False
      with Some r "1.prems" have e: "keys = pubkeys" "opc = opcode" "it' = it1"
        by (simp_all add: MatchMultisig_loop.simps [of it])
      from GetScriptOp_nonpush [OF Some [unfolded r]] IsSmallInteger_nonpush [OF "1.prems"(2)] e
      have "it = opc # it'" by simp
      with e show ?thesis
        by (intro exI [of _ "[]"] exI [of _ "[]"]) simp
    qed
  qed
qed

lemma MatchMultisig_shape:
  assumes mm: "MatchMultisig s = Some (m, keys)"
  shows "\<exists>pushes. multisig_shape s m keys pushes"
proof -
  from mm have last: "last s = OP_CHECKMULTISIG" and ne: "s \<noteq> []"
    by (auto simp: MatchMultisig_def split: if_splits)
  from mm obtain opcode d it where g: "GetScriptOp s = Some (opcode, d, it)"
    by (auto simp: MatchMultisig_def split: if_splits option.splits)
  obtain pubkeys opc' it' where l: "MatchMultisig_loop it [] = (pubkeys, opc', it')"
    by (cases "MatchMultisig_loop it []") auto
  from mm g l have *: "IsSmallInteger opcode" "IsSmallInteger opc'" "m = DecodeOP_N opcode"
    "length pubkeys = DecodeOP_N opc'" "keys = pubkeys" "length it' = 1"
    by (auto simp: MatchMultisig_def Let_def split: if_splits)
  from GetScriptOp_nonpush [OF g IsSmallInteger_nonpush [OF *(1)]] have s: "s = opcode # it" by simp
  from MatchMultisig_loop_pushes [OF l *(2)] obtain pushes
    where it: "it = concat pushes @ opc' # it'"
      and ps: "list_all2 (\<lambda>p k. p \<in> set (pubkey_pushes k)) pushes pubkeys"
    by auto
  from *(6) obtain c where c: "it' = [c]" by (cases it') auto
  from last s it c have "c = OP_CHECKMULTISIG" by simp
  with s it c have shape: "s = [opcode] @ concat pushes @ [opc', OP_CHECKMULTISIG]" by simp
  from Encode_Decode_OP_N [OF *(1)] *(3) have em: "EncodeOP_N m = opcode" by simp
  from Encode_Decode_OP_N [OF *(2)] *(4,5) have en: "EncodeOP_N (length keys) = opc'" by simp
  from MatchMultisig_keys [OF mm] shape ps em en *(5) show ?thesis
    by (intro exI [of _ pushes]) (simp add: multisig_shape_def list_all_well_sized)
qed

text \<open>
  Claim C5. Solver classifies a script as MULTISIG exactly when the script fails the
  earlier rules (P2SH, witness program, null data, P2PK, P2PKH) and has the shape: the
  small integer m, one push per public key, the small integer n, OP_CHECKMULTISIG, with
  every key well-sized (33 bytes with the first byte 2 or 3, or 65 bytes with the first
  byte 4, 6 or 7), 1 \<le> m \<le> n \<le> 16 and nothing after; the solutions are then the
  byte m, the keys in order and the byte n.
\<close>

theorem Solver_MULTISIG_iff_shape:
  "Solver s = (MULTISIG, sols) \<longleftrightarrow>
     \<not> IsPayToScriptHash s \<and> IsWitnessProgram s = None
     \<and> \<not> (length s \<ge> 1 \<and> s ! 0 = OP_RETURN \<and> IsPushOnly (drop 1 s))
     \<and> MatchPayToPubkey s = None \<and> MatchPayToPubkeyHash s = None
     \<and> (\<exists>m keys pushes. multisig_shape s m keys pushes
            \<and> sols = [[of_nat m]] @ keys @ [[of_nat (length keys)]])"
  (is "?L \<longleftrightarrow> ?R")
proof
  assume L: ?L
  then have "fst (Solver s) \<in> {PUBKEY, PUBKEYHASH, MULTISIG}" by simp
  from Solver_late_rules [OF this] have early:
    "\<not> IsPayToScriptHash s" "IsWitnessProgram s = None"
    "\<not> (length s \<ge> 1 \<and> s ! 0 = OP_RETURN \<and> IsPushOnly (drop 1 s))"
    by simp_all
  from Solver_tail [OF early] L have pk: "MatchPayToPubkey s = None"
    by (cases "MatchPayToPubkey s") simp_all
  from Solver_tail [OF early] L pk have pkh: "MatchPayToPubkeyHash s = None"
    by (cases "MatchPayToPubkeyHash s") simp_all
  from Solver_MULTISIG [OF L] obtain m keys
    where mm: "MatchMultisig s = Some (m, keys)"
      and sols: "sols = [[of_nat m]] @ keys @ [[of_nat (length keys)]]"
    by blast
  from MatchMultisig_shape [OF mm] sols early pk pkh show ?R by blast
next
  assume R: ?R
  then obtain m keys pushes where sh: "multisig_shape s m keys pushes"
    and sols: "sols = [[of_nat m]] @ keys @ [[of_nat (length keys)]]"
    by blast
  from R have early:
    "\<not> IsPayToScriptHash s" "IsWitnessProgram s = None"
    "\<not> (length s \<ge> 1 \<and> s ! 0 = OP_RETURN \<and> IsPushOnly (drop 1 s))"
    and pk: "MatchPayToPubkey s = None" and pkh: "MatchPayToPubkeyHash s = None"
    by simp_all
  from Solver_tail [OF early] pk pkh MatchMultisig_of_shape [OF sh] sols
  show ?L by simp
qed


theorem Solver_MULTISIG_iff_shape_witness:
  "Solver ([0x51, 0x21] @ 2 # replicate 32 7 @ [0x51, 0xae])
     = (MULTISIG, [[1], 2 # replicate 32 7, [1]])
   \<and> (\<exists>m keys pushes.
         multisig_shape ([0x51, 0x21] @ 2 # replicate 32 7 @ [0x51, 0xae]) m keys pushes
         \<and> [[1], 2 # replicate 32 7, [1]] = [[of_nat m]] @ keys @ [[of_nat (length keys)]])"
proof -
  have solver: "Solver ([0x51, 0x21] @ 2 # replicate 32 7 @ [0x51, 0xae])
                  = (MULTISIG, [[1], 2 # replicate 32 7, [1]])"
    by code_simp
  from Solver_MULTISIG_iff_shape [THEN iffD1, OF solver] solver show ?thesis by blast
qed

section \<open>The round trip through the encoding library\<close>

subsection \<open>Base58 round trip\<close>

lemma to_base_step:
  "n \<noteq> 0 \<Longrightarrow> 2 \<le> b \<Longrightarrow> to_base b n = to_base b (n div b) @ [n mod b]"
  by (subst to_base.simps) simp

lemma to_base_from_base:
  assumes b: "2 \<le> b"
  shows "list_all (\<lambda>d. d < b) ds \<Longrightarrow> ds = [] \<or> hd ds \<noteq> 0
           \<Longrightarrow> to_base b (from_base b ds) = ds"
proof (induction ds rule: rev_induct)
  case Nil
  show ?case by simp
next
  case (snoc d ds)
  from snoc.prems have d: "d < b" and all: "list_all (\<lambda>d. d < b) ds" by simp_all
  show ?case
  proof (cases "ds = []")
    case True
    with snoc.prems have "d \<noteq> 0" by simp
    with d b True show ?thesis by (simp add: from_base_Cons to_base_step)
  next
    case False
    with snoc.prems have hd: "hd ds \<noteq> 0" by simp
    from snoc.IH [OF all] hd have ih: "to_base b (from_base b ds) = ds" by simp
    with False have nz: "from_base b ds \<noteq> 0" by (cases "from_base b ds = 0") simp_all
    with b have "from_base b ds * b + d \<noteq> 0" by simp
    from to_base_step [OF this b] d ih show ?thesis by (simp add: from_base_snoc)
  qed
qed

lemma from_base_to_base: "2 \<le> b \<Longrightarrow> from_base b (to_base b n) = n"
proof (induction b n rule: to_base.induct)
  case (1 b n)
  show ?case
  proof (cases "n = 0")
    case True
    then show ?thesis by simp
  next
    case False
    with "1.prems" have "\<not> (n = 0 \<or> b < 2)" by simp
    from "1.IH" [OF this "1.prems"] to_base_step [OF False "1.prems"]
    show ?thesis by (simp add: from_base_snoc)
  qed
qed

lemma to_base_digits: "2 \<le> b \<Longrightarrow> list_all (\<lambda>d. d < b) (to_base b n)"
proof (induction b n rule: to_base.induct)
  case (1 b n)
  show ?case
  proof (cases "n = 0")
    case True
    then show ?thesis by simp
  next
    case False
    with "1.prems" have "\<not> (n = 0 \<or> b < 2)" by simp
    from "1.IH" [OF this "1.prems"] to_base_step [OF False "1.prems"] "1.prems"
    show ?thesis by simp
  qed
qed

lemma to_base_no_leading_zero:
  "2 \<le> b \<Longrightarrow> to_base b n = [] \<or> hd (to_base b n) \<noteq> 0"
proof (induction b n rule: to_base.induct)
  case (1 b n)
  show ?case
  proof (cases "n = 0")
    case True
    then show ?thesis by simp
  next
    case False
    with "1.prems" have c: "\<not> (n = 0 \<or> b < 2)" by simp
    note step = to_base_step [OF False "1.prems"]
    show ?thesis
    proof (cases "n div b = 0")
      case True
      with False have "n mod b \<noteq> 0" using div_mult_mod_eq [of n b] by simp
      with True step show ?thesis by simp
    next
      case nz: False
      from to_base_step [OF nz "1.prems"] have "to_base b (n div b) \<noteq> []" by simp
      with "1.IH" [OF c "1.prems"] step show ?thesis by simp
    qed
  qed
qed

lemma from_base_leading_zeros: "from_base b (replicate z 0 @ ds) = from_base b ds"
  by (induction z) (simp_all add: from_base_Cons)

lemma find_index_nth:
  "distinct xs \<Longrightarrow> i < length xs \<Longrightarrow> find_index (xs ! i) xs = Some i"
proof (induction xs arbitrary: i)
  case Nil
  then show ?case by simp
next
  case (Cons x xs)
  show ?case
  proof (cases i)
    case 0
    then show ?thesis by simp
  next
    case (Suc j)
    with Cons.prems have "xs ! j \<noteq> x" "j < length xs" by auto
    with Cons.IH [of j] Cons.prems Suc show ?thesis by simp
  qed
qed

lemma those_map_Some:
  "(\<And>x. x \<in> set xs \<Longrightarrow> f x = Some (g x)) \<Longrightarrow> those (map f xs) = Some (map g xs)"
  by (induction xs) simp_all

lemma takeWhile_zeros:
  "ds = [] \<or> hd ds \<noteq> (0::'a::zero) \<Longrightarrow> takeWhile (\<lambda>d. d = 0) (replicate z 0 @ ds) = replicate z 0"
  by (induction z) (cases ds; simp)+

lemma split_leading_zeros:
  "\<exists>rest. xs = replicate (length (takeWhile (\<lambda>d. d = 0) xs)) (0::'a::zero) @ rest
      \<and> (rest = [] \<or> hd rest \<noteq> 0)"
proof (induction xs)
  case Nil
  show ?case by simp
next
  case (Cons x xs)
  show ?case
  proof (cases "x = 0")
    case True
    with Cons show ?thesis by auto
  next
    case False
    then show ?thesis by (intro exI [of _ "x # xs"]) simp
  qed
qed


lemma distinct_base58_ALPHABET: "distinct base58_ALPHABET"
  by (simp add: base58_ALPHABET_def)

lemma length_base58_ALPHABET: "length base58_ALPHABET = 58"
  by (simp add: base58_ALPHABET_def)

lemma base58_ALPHABET_0: "base58_ALPHABET ! 0 = CHR ''1''"
  by (simp add: base58_ALPHABET_def)

lemma map_of_nat_unat: "map of_nat (map unat (bs :: byte list)) = bs"
  by (induction bs) simp_all

lemma base58_indices:
  assumes "list_all (\<lambda>d. d < 58) ds"
  shows "those (map (\<lambda>c. find_index c base58_ALPHABET) (map (\<lambda>d. base58_ALPHABET ! d) ds))
           = Some ds"
proof -
  have "those (map ((\<lambda>c. find_index c base58_ALPHABET) \<circ> (\<lambda>d. base58_ALPHABET ! d)) ds)
          = Some (map id ds)"
    using assms
    by (intro those_map_Some)
       (simp add: list_all_iff find_index_nth distinct_base58_ALPHABET length_base58_ALPHABET)
  then show ?thesis by simp
qed

lemma DecodeBase58_EncodeBase58:
  assumes n: "length bs \<le> n"
  shows "DecodeBase58_spec (EncodeBase58_spec bs) n = Some bs"
proof -
  define z where "z = length (takeWhile (\<lambda>b. b = 0) bs)"
  from split_leading_zeros [of bs] obtain rest
    where bs: "bs = replicate z 0 @ rest" and rest: "rest = [] \<or> hd rest \<noteq> 0"
    unfolding z_def by blast
  define N where "N = from_base 256 (map unat bs)"
  define ds where "ds = to_base 58 N"
  have N: "N = from_base 256 (map unat rest)"
    unfolding N_def by (subst bs) (simp add: from_base_leading_zeros)
  have ds58: "list_all (\<lambda>d. d < 58) ds" unfolding ds_def by (rule to_base_digits) simp
  have dsz: "ds = [] \<or> hd ds \<noteq> 0" unfolding ds_def by (rule to_base_no_leading_zero) simp
  have enc: "EncodeBase58_spec bs = map (\<lambda>d. base58_ALPHABET ! d) (replicate z 0 @ ds)"
    by (simp add: EncodeBase58_spec_def z_def N_def ds_def base58_ALPHABET_0)
  from ds58 have all: "list_all (\<lambda>d. d < 58) (replicate z 0 @ ds)" by (auto simp: list_all_iff)
  have val: "from_base 58 (replicate z 0 @ ds) = N"
    by (simp add: from_base_leading_zeros ds_def from_base_to_base)
  have r256: "list_all (\<lambda>d. d < 256) (map unat rest)"
    by (simp add: list_all_iff byte_less_256)
  from rest have rz: "map unat rest = [] \<or> hd (map unat rest) \<noteq> 0"
    by (cases rest) (simp_all add: unat_eq_0)
  have "to_base 256 N = map unat rest"
    unfolding N by (rule to_base_from_base [OF _ r256 rz]) simp
  then have bytes: "map of_nat (to_base 256 N) = rest" by (simp only: map_of_nat_unat)
  show ?thesis
    unfolding DecodeBase58_spec_def enc base58_indices [OF all]
    using n by (simp add: Let_def takeWhile_zeros [OF dsz] val bytes bs [symmetric])
qed

lemma length_base58_checksum: "length (base58_checksum sha256 payload) = 4"
  by (simp add: base58_checksum_def digest_bytes_def)

lemma DecodeBase58Check_EncodeBase58Check:
  assumes "length payload \<le> n"
  shows "DecodeBase58Check_spec sha256 (EncodeBase58Check_spec sha256 payload) n = Some payload"
proof -
  let ?vch = "payload @ base58_checksum sha256 payload"
  from assms have "length ?vch \<le> n + 4" by (simp add: length_base58_checksum)
  from DecodeBase58_EncodeBase58 [OF this] show ?thesis
    by (simp add: DecodeBase58Check_spec_def EncodeBase58Check_spec_def Let_def
          length_base58_checksum)
qed

lemma DecodeBase58_spec_limit:
  "DecodeBase58_spec str m = Some v \<Longrightarrow> n < length v \<Longrightarrow> DecodeBase58_spec str n = None"
  by (auto simp: DecodeBase58_spec_def Let_def split: option.splits if_splits)

lemma DecodeBase58Check_too_long:
  assumes "n < length payload"
  shows "DecodeBase58Check_spec sha256 (EncodeBase58Check_spec sha256 payload) n = None"
proof -
  let ?vch = "payload @ base58_checksum sha256 payload"
  have "DecodeBase58_spec (EncodeBase58_spec ?vch) (length ?vch) = Some ?vch"
    by (rule DecodeBase58_EncodeBase58) simp
  from DecodeBase58_spec_limit [OF this, of "n + 4"] assms
  have "DecodeBase58_spec (EncodeBase58_spec ?vch) (n + 4) = None"
    by (simp add: length_base58_checksum)
  then show ?thesis
    by (simp add: DecodeBase58Check_spec_def EncodeBase58Check_spec_def)
qed

subsection \<open>The Bech32 checksum\<close>

text \<open>
  The checksum that bech32_create_checksum appends makes the polymod of the whole equal
  to the constant of the encoding: one step of the polymod is linear over XOR in the low
  25 bits of the state, so the six checksum symbols cancel the residue of the six zero
  symbols.
\<close>

lemma low25: "c AND (0x1ffffff :: 32 word) = take_bit 25 c"
  by (simp add: take_bit_eq_mask mask_eq_exp_minus_1)

lemma bech32_polymod_step_eq:
  "bech32_polymod_step c v
     = push_bit 5 (take_bit 25 c) XOR ucast v XOR bech32_generator (drop_bit 25 c)"
  unfolding low25 [symmetric]
  by (simp add: bech32_polymod_step_def bech32_generator_def Let_def xor.assoc)

lemma bech32_polymod_step_xor:
  assumes d: "take_bit 25 d = d"
  shows "bech32_polymod_step (z XOR d) s
           = bech32_polymod_step z 0 XOR (push_bit 5 d XOR ucast s)"
proof -
  have "drop_bit 25 d = drop_bit 25 (take_bit 25 d)" by (simp only: d)
  then have d0: "drop_bit 25 d = 0" by (simp add: drop_bit_take_bit)
  have top: "drop_bit 25 (z XOR d) = drop_bit 25 z" by (simp add: d0)
  have low: "take_bit 25 (z XOR d) = take_bit 25 z XOR d" by (simp add: d)
  show ?thesis
    unfolding bech32_polymod_step_eq top low by (simp add: ac_simps)
qed


lemma split_low5: "push_bit 5 (drop_bit 5 y) XOR (y AND 31) = (y :: 32 word)"
proof -
  have "(31 :: 32 word) = mask 5" by (simp add: mask_eq_exp_minus_1)
  then have "y AND 31 = take_bit 5 y" by (simp add: take_bit_eq_mask)
  then show ?thesis
    by (simp only:) (rule bit_eqI, auto simp: bit_simps dest: bit_imp_le_length)
qed

lemma ucast_low5: "ucast (ucast (y AND 31 :: 32 word) :: byte) = (y AND 31 :: 32 word)"
proof -
  have "(31 :: 32 word) = mask 5" by (simp add: mask_eq_exp_minus_1)
  then have "y AND 31 = take_bit 5 y" by (simp add: take_bit_eq_mask)
  then show ?thesis
    by (simp only:) (rule bit_eqI, auto simp: bit_simps dest: bit_imp_le_length)
qed

lemma bech32_checksum_steps:
  fixes c m :: "32 word"
  assumes m: "take_bit 30 m = m" and n: "n \<le> 6"
  shows "foldl bech32_polymod_step c
           (map (\<lambda>i. ucast (drop_bit (5 * (5 - i)) m AND 31)) [0 ..< n])
         = foldl bech32_polymod_step c (replicate n 0) XOR drop_bit (5 * (6 - n)) m"
  using n
proof (induction n)
  case 0
  have "drop_bit 30 m = drop_bit 30 (take_bit 30 m)" by (simp only: m)
  then have "drop_bit 30 m = 0" by (simp add: drop_bit_take_bit)
  then show ?case by simp
next
  case (Suc n)
  let ?D = "drop_bit (5 * (6 - n)) m"
  let ?y = "drop_bit (5 * (5 - n)) m"
  from Suc.prems have n: "n \<le> 6" "n < 6" by simp_all
  have "?D = drop_bit (5 * (6 - n)) (take_bit 30 m)" by (simp only: m)
  also have "\<dots> = take_bit (5 * n) (drop_bit (5 * (6 - n)) m)"
    using n by (simp add: drop_bit_take_bit) (simp add: algebra_simps)
  finally have e: "?D = take_bit (5 * n) ?D" .
  from n have mn: "min 25 (5 * n) = 5 * n" by simp
  have "take_bit 25 ?D = take_bit 25 (take_bit (5 * n) ?D)" by (simp only: e [symmetric])
  also have "\<dots> = take_bit (5 * n) ?D" by (simp only: take_bit_take_bit mn)
  also have "\<dots> = ?D" by (simp only: e [symmetric])
  finally have small: "take_bit 25 ?D = ?D" .
  from n have "5 * (6 - n) = 5 + 5 * (5 - n)" by simp
  then have D: "?D = drop_bit 5 ?y" by (simp only: drop_bit_drop_bit add.commute)
  have next_D: "push_bit 5 ?D XOR ucast (ucast (?y AND 31) :: byte) = ?y"
    unfolding ucast_low5 D by (rule split_low5)
  have "foldl bech32_polymod_step c
          (map (\<lambda>i. ucast (drop_bit (5 * (5 - i)) m AND 31)) [0 ..< Suc n])
        = bech32_polymod_step
            (foldl bech32_polymod_step c (replicate n 0) XOR ?D) (ucast (?y AND 31))"
    by (simp add: Suc.IH [OF n(1)])
  also have "\<dots> = bech32_polymod_step (foldl bech32_polymod_step c (replicate n 0)) 0 XOR ?y"
    by (simp only: bech32_polymod_step_xor [OF small] next_D)
  also have "\<dots> = foldl bech32_polymod_step c (replicate (Suc n) 0) XOR ?y"
  proof -
    have r: "replicate (Suc n) (0::byte) = replicate n 0 @ [0]"
      by (simp add: replicate_append_same)
    show ?thesis by (simp only: r foldl_append foldl_Cons foldl_Nil)
  qed
  finally show ?case using n by simp
qed


lemma take_bit_30_generator: "take_bit 30 (bech32_generator c0) = bech32_generator c0"
  by (simp add: bech32_generator_def)

lemma take_bit_30_ucast_byte: "take_bit 30 (ucast (v :: byte) :: 32 word) = ucast v"
  by (rule bit_eqI) (auto simp: bit_simps dest: bit_imp_le_length)

lemma take_bit_30_polymod_step:
  "take_bit 30 (bech32_polymod_step c v) = bech32_polymod_step c v"
  unfolding bech32_polymod_step_eq
  by (simp add: take_bit_30_generator take_bit_30_ucast_byte take_bit_push_bit)

lemma take_bit_30_constant:
  "take_bit 30 (bech32_encoding_constant enc) = bech32_encoding_constant enc"
  by (simp add: bech32_encoding_constant_def)

lemma bech32_polymod_checksum:
  "bech32_polymod (bech32_expand_hrp hrp @ values @ bech32_create_checksum enc hrp values)
     = bech32_encoding_constant enc"
proof -
  define c where "c = foldl bech32_polymod_step 1 (bech32_expand_hrp hrp @ values)"
  define P where "P = foldl bech32_polymod_step c (replicate 6 0)"
  define m where "m = P XOR bech32_encoding_constant enc"
  have P: "bech32_polymod (bech32_expand_hrp hrp @ values @ replicate 6 0) = P"
    by (simp add: bech32_polymod_def P_def c_def)
  have "replicate 6 (0::byte) = replicate 5 0 @ [0]" by (simp add: numeral_eq_Suc)
  then have "P = bech32_polymod_step (foldl bech32_polymod_step c (replicate 5 0)) 0"
    unfolding P_def by (simp only: foldl_append foldl_Cons foldl_Nil)
  then have "take_bit 30 P = P" by (simp only: take_bit_30_polymod_step)
  then have m30: "take_bit 30 m = m" by (simp add: m_def take_bit_30_constant)
  have cs: "bech32_create_checksum enc hrp values
              = map (\<lambda>i. ucast (drop_bit (5 * (5 - i)) m AND 31)) [0 ..< 6]"
    by (simp only: bech32_create_checksum_def P Let_def m_def)
  have "bech32_polymod (bech32_expand_hrp hrp @ values @ bech32_create_checksum enc hrp values)
          = foldl bech32_polymod_step c (bech32_create_checksum enc hrp values)"
    by (simp add: bech32_polymod_def c_def)
  also have "\<dots> = P XOR drop_bit (5 * (6 - 6)) m"
    unfolding cs P_def by (rule bech32_checksum_steps [OF m30]) simp
  also have "\<dots> = bech32_encoding_constant enc"
    by (simp add: m_def flip: xor.assoc)
  finally show ?thesis .
qed

lemma length_bech32_create_checksum: "length (bech32_create_checksum enc hrp values) = 6"
  by (simp add: bech32_create_checksum_def Let_def)

lemma bech32_create_checksum_symbols:
  "list_all (\<lambda>v. unat v < 32) (bech32_create_checksum enc hrp values)"
proof -
  have "unat (ucast (y AND 31 :: 32 word) :: byte) < 32" for y
  proof -
    have "y AND 31 \<le> 31" by (rule word_and_le1)
    then have "unat (y AND 31) \<le> 31" by (simp add: word_le_nat_alt)
    moreover have "unat (ucast (y AND 31 :: 32 word) :: byte) \<le> unat (y AND 31)"
      by (simp add: unsigned_ucast_eq take_bit_nat_less_eq_self)
    ultimately show ?thesis by simp
  qed
  then show ?thesis
    by (simp add: bech32_create_checksum_def Let_def list_all_iff)
qed

lemma bech32_verify_create:
  assumes "enc = BECH32 \<or> enc = BECH32M"
  shows "bech32_verify_checksum hrp (values @ bech32_create_checksum enc hrp values) = enc"
  using assms
  by (auto simp: bech32_verify_checksum_def bech32_polymod_checksum Let_def
        bech32_encoding_constant_def)

subsection \<open>Bech32 round trip\<close>

lemma distinct_bech32_CHARSET: "distinct bech32_CHARSET"
  by (simp add: bech32_CHARSET_def)

lemma length_bech32_CHARSET: "length bech32_CHARSET = 32"
  by (simp add: bech32_CHARSET_def)

lemma bech32_CHARSET_chars:
  "c \<in> set bech32_CHARSET \<Longrightarrow> c \<noteq> CHR ''1'' \<and> \<not> is_upper c"
  by (auto simp: bech32_CHARSET_def is_upper_def)

lemma bech32_indices:
  assumes "list_all (\<lambda>v. unat v < 32) (vs :: byte list)"
  shows "those (map (\<lambda>c. find_index c bech32_CHARSET) (map (\<lambda>v. bech32_CHARSET ! unat v) vs))
           = Some (map unat vs)"
proof -
  have "those (map ((\<lambda>c. find_index c bech32_CHARSET) \<circ> (\<lambda>v. bech32_CHARSET ! unat v)) vs)
          = Some (map unat vs)"
  proof (rule those_map_Some)
    fix v assume "v \<in> set vs"
    with assms have "unat v < 32" by (simp add: list_all_iff)
    then show "((\<lambda>c. find_index c bech32_CHARSET) \<circ> (\<lambda>v. bech32_CHARSET ! unat v)) v
                 = Some (unat v)"
      by (simp add: find_index_nth distinct_bech32_CHARSET length_bech32_CHARSET)
  qed
  then show ?thesis by simp
qed

lemma rfind_last:
  "c \<notin> set ys \<Longrightarrow> rfind c (xs @ c # ys) = Some (length xs)"
proof (induction xs)
  case Nil
  have "rfind c ys = None" using Nil by (induction ys) (auto split: option.splits)
  then show ?case by simp
next
  case (Cons x xs)
  then show ?case by simp
qed

lemma ToLower_no_upper: "\<not> list_ex is_upper str \<Longrightarrow> ToLower str = str"
  by (induction str) (auto simp: ToLower_def LowerCase_def is_upper_def)

lemma bech32_symbols_chars:
  assumes "list_all (\<lambda>v. unat v < 32) (vs :: byte list)"
  shows "set (map (\<lambda>v. bech32_CHARSET ! unat v) vs) \<subseteq> set bech32_CHARSET"
  using assms by (auto simp: list_all_iff length_bech32_CHARSET)

lemma bech32_Decode_Encode:
  assumes enc: "enc = BECH32 \<or> enc = BECH32M"
    and hrp: "hrp \<noteq> []" "list_all hrp_char hrp" "\<not> list_ex is_upper hrp"
    and vs: "list_all (\<lambda>v. unat v < 32) values"
    and len: "length hrp + length values \<le> 83"
  shows "bech32_Decode_spec (bech32_Encode_spec enc hrp values)
           = \<lparr>dec_encoding = enc, dec_hrp = hrp, dec_data = values\<rparr>"
proof -
  define cs where "cs = bech32_create_checksum enc hrp values"
  define rest where "rest = map (\<lambda>v. bech32_CHARSET ! unat v) (values @ cs)"
  define str where "str = hrp @ CHR ''1'' # rest"
  have all: "list_all (\<lambda>v. unat v < 32) (values @ cs)"
    using vs by (simp add: cs_def bech32_create_checksum_symbols)
  have sub: "set rest \<subseteq> set bech32_CHARSET"
    unfolding rest_def by (rule bech32_symbols_chars [OF all])
  have lcs: "length cs = 6" by (simp add: cs_def length_bech32_create_checksum)
  have lrest: "length rest = length values + 6" by (simp add: rest_def lcs)
  have E: "bech32_Encode_spec enc hrp values = str"
    by (simp add: bech32_Encode_spec_def str_def rest_def cs_def)
  have no1: "CHR ''1'' \<notin> set rest" using sub bech32_CHARSET_chars by blast
  have noup: "\<not> list_ex is_upper str"
    using hrp(3) sub bech32_CHARSET_chars
    by (auto simp: str_def list_ex_iff is_upper_def)
  have low: "ToLower str = str" by (rule ToLower_no_upper [OF noup])
  have pos: "rfind (CHR ''1'') str = Some (length hrp)"
    unfolding str_def by (rule rfind_last [OF no1])
  have tk: "take (length hrp) str = hrp" by (simp add: str_def)
  have dr: "drop (Suc (length hrp)) str = rest" by (simp add: str_def)
  have l90: "\<not> length str > 90" using len by (simp add: str_def lrest)
  have th: "those (map (\<lambda>c. find_index c bech32_CHARSET) rest) = Some (map unat (values @ cs))"
    unfolding rest_def by (rule bech32_indices [OF all])
  have unat_vs: "map of_nat (map unat (values @ cs)) = values @ cs"
    by (rule map_of_nat_unat)
  have ver: "bech32_verify_checksum hrp (values @ cs) = enc"
    unfolding cs_def by (rule bech32_verify_create [OF enc])
  have h83: "\<not> length hrp > 83" using len by simp
  show ?thesis
    unfolding E bech32_Decode_spec_def
    using enc hrp(1,2) h83 l90 noup
    by (auto simp: low pos tk dr th unat_vs ver lrest lcs Let_def
          simp del: map_append map_map length_drop)
qed

lemma length_bech32_Encode_spec:
  "length (bech32_Encode_spec enc hrp values) = length hrp + length values + 7"
  by (simp add: bech32_Encode_spec_def length_bech32_create_checksum)

lemma bech32_Decode_spec_too_long:
  "90 < length str \<Longrightarrow> bech32_Decode_spec str = bech32_invalid"
  by (simp add: bech32_Decode_spec_def)

subsection \<open>The scripts of the single-address kinds\<close>

lemma Solver_SCRIPTHASH:
  assumes "fst (Solver s) = SCRIPTHASH"
  shows "IsPayToScriptHash s \<and> Solver s = (SCRIPTHASH, [take 20 (drop 2 s)])"
proof (cases "IsPayToScriptHash s")
  case True
  then show ?thesis by (simp add: Solver_def)
next
  case False
  show ?thesis
  proof (cases "IsWitnessProgram s")
    case (Some r)
    obtain v p where "r = (v, p)" by (cases r) auto
    with Some Solver_witness_kind [OF _ False] assms show ?thesis by auto
  next
    case None
    show ?thesis
    proof (cases "length s \<ge> 1 \<and> s ! 0 = OP_RETURN \<and> IsPushOnly (drop 1 s)")
      case True
      with False None assms show ?thesis by (simp add: Solver_def)
    next
      case nd: False
      from Solver_tail [OF False None nd] assms show ?thesis
        by (auto split: option.splits)
    qed
  qed
qed

lemma Solver_witness_program:
  assumes "fst (Solver s) \<in> {WITNESS_V0_KEYHASH, WITNESS_V0_SCRIPTHASH, WITNESS_V1_TAPROOT}"
  shows "\<exists>v p. \<not> IsPayToScriptHash s \<and> IsWitnessProgram s = Some (v, p)"
proof (cases "IsPayToScriptHash s")
  case True
  with assms show ?thesis by (simp add: Solver_def)
next
  case False
  show ?thesis
  proof (cases "IsWitnessProgram s")
    case (Some r)
    with False show ?thesis by (cases r) auto
  next
    case None
    show ?thesis
    proof (cases "length s \<ge> 1 \<and> s ! 0 = OP_RETURN \<and> IsPushOnly (drop 1 s)")
      case True
      with False None assms show ?thesis by (simp add: Solver_def)
    next
      case nd: False
      from Solver_tail [OF False None nd] assms show ?thesis
        by (auto split: option.splits)
    qed
  qed
qed

lemma Solver_of_witness_program:
  assumes "\<not> IsPayToScriptHash s" "IsWitnessProgram s = Some (v, p)"
  shows "Solver s =
     (if v = 0 \<and> length p = 20 then (WITNESS_V0_KEYHASH, [p])
      else if v = 0 \<and> length p = 32 then (WITNESS_V0_SCRIPTHASH, [p])
      else if v = 1 \<and> length p = 32 then (WITNESS_V1_TAPROOT, [p])
      else if v \<noteq> 0 then (WITNESS_UNKNOWN, [[of_nat v], p])
      else (NONSTANDARD, []))"
  using assms by (simp add: Solver_def size_defs)

lemma byte_eq_unat: "unat (b :: byte) = n \<Longrightarrow> b = of_nat n"
  by auto

lemma drop_last_one: "length s = Suc n \<Longrightarrow> drop n s = [s ! n]"
  using Cons_nth_drop_Suc [of n s] by simp

lemma drop_last_two: "length s = Suc (Suc n) \<Longrightarrow> drop n s = [s ! n, s ! Suc n]"
  using Cons_nth_drop_Suc [of n s] Cons_nth_drop_Suc [of "Suc n" s] by simp

lemma IsWitnessProgram_script:
  assumes "IsWitnessProgram s = Some (v, p)"
  shows "s = [EncodeOP_N v, of_nat (length p)] @ p \<and> v \<le> 16 \<and> 2 \<le> length p \<and> length p \<le> 40"
proof -
  from assms have len: "4 \<le> length s" "length s \<le> 42"
    and op: "s ! 0 = OP_0 \<or> (OP_1 \<le> s ! 0 \<and> s ! 0 \<le> OP_16)"
    and sz: "unat (s ! 1) + 2 = length s"
    and v: "v = DecodeOP_N (s ! 0)" and p: "p = drop 2 s"
    by (auto simp: IsWitnessProgram_def split: if_splits)
  from op v have e: "EncodeOP_N v = s ! 0" and v16: "v \<le> 16"
    by (auto simp: EncodeOP_N_def DecodeOP_N_def opcode_defs word_le_nat_alt)
  from sz p len have "unat (s ! 1) = length p" by simp
  from byte_eq_unat [OF this] have l: "of_nat (length p) = s ! 1" by simp
  from len have "s = s ! 0 # s ! 1 # drop 2 s"
    by (cases s; cases "tl s") auto
  with e l p have "s = [EncodeOP_N v, of_nat (length p)] @ p" by simp
  moreover from p len have "2 \<le> length p" "length p \<le> 40" by auto
  ultimately show ?thesis using v16 by simp
qed

lemma MatchPayToPubkeyHash_script:
  assumes "MatchPayToPubkeyHash s = Some h"
  shows "s = [OP_DUP, OP_HASH160, 20] @ h @ [OP_EQUALVERIFY, OP_CHECKSIG] \<and> length h = 20"
proof -
  from assms have len: "length s = 25"
    and el: "s ! 0 = OP_DUP" "s ! 1 = OP_HASH160" "s ! 2 = 20"
            "s ! 23 = OP_EQUALVERIFY" "s ! 24 = OP_CHECKSIG"
    and h: "h = take 20 (drop 3 s)"
    by (auto simp: MatchPayToPubkeyHash_def split: if_splits)
  from len have a: "s = s ! 0 # s ! 1 # s ! 2 # drop 3 s"
    by (cases s; cases "tl s"; cases "tl (tl s)") auto
  from len drop_last_two [of s 23] have b: "drop 23 s = [s ! 23, s ! 24]" by simp
  have "take 20 (drop 3 s) @ drop (20 + 3) s = drop 3 s"
    by (simp only: drop_drop [symmetric] append_take_drop_id)
  then have c: "drop 3 s = h @ drop 23 s" by (simp add: h)
  from a c b el have "s = [OP_DUP, OP_HASH160, 20] @ h @ [OP_EQUALVERIFY, OP_CHECKSIG]" by simp
  moreover from h len have "length h = 20" by simp
  ultimately show ?thesis by simp
qed

lemma IsPayToScriptHash_script:
  assumes "IsPayToScriptHash s"
  shows "s = [OP_HASH160, 20] @ take 20 (drop 2 s) @ [OP_EQUAL] \<and> length (take 20 (drop 2 s)) = 20"
proof -
  from assms have len: "length s = 23"
    and el: "s ! 0 = OP_HASH160" "s ! 1 = 20" "s ! 22 = OP_EQUAL"
    by (auto simp: IsPayToScriptHash_def)
  from len have a: "s = s ! 0 # s ! 1 # drop 2 s"
    by (cases s; cases "tl s") auto
  from len drop_last_one [of s 22] have b: "drop 22 s = [s ! 22]" by simp
  have "take 20 (drop 2 s) @ drop (20 + 2) s = drop 2 s"
    by (simp only: drop_drop [symmetric] append_take_drop_id)
  then have c: "drop 2 s = take 20 (drop 2 s) @ drop 22 s" by simp
  note a
  also have "drop 2 s = take 20 (drop 2 s) @ [s ! 22]" using c b by simp
  finally have "s = s ! 0 # s ! 1 # take 20 (drop 2 s) @ [s ! 22]" .
  with el have "s = [OP_HASH160, 20] @ take 20 (drop 2 s) @ [OP_EQUAL]" by simp
  moreover from len have "length (take 20 (drop 2 s)) = 20" by simp
  ultimately show ?thesis by simp
qed

subsection \<open>From the script to the address and back\<close>

lemma roundtrip_PUBKEYHASH:
  assumes kind: "fst (Solver s) = PUBKEYHASH"
    and pre: "length (base58Prefixes params PUBKEY_ADDRESS) \<le> 1"
    and route: "\<not> is_bech32 params (hd (snd (ExtractDestination (spec_library sha256) s params [])))"
  shows "\<exists>addr. ExtractDestination (spec_library sha256) s params [] = (True, [addr])
           \<and> DecodeDestination (spec_library sha256) addr [] params = (True, s, [])"
proof -
  define pk where "pk = base58Prefixes params PUBKEY_ADDRESS"
  obtain sols where "Solver s = (PUBKEYHASH, sols)" using kind by (cases "Solver s") auto
  from Solver_PUBKEYHASH [OF this] this obtain h
    where m: "MatchPayToPubkeyHash s = Some h" and S: "Solver s = (PUBKEYHASH, [h])" by auto
  from MatchPayToPubkeyHash_script [OF m]
  have s: "s = [OP_DUP, OP_HASH160, 20] @ h @ [OP_EQUALVERIFY, OP_CHECKSIG]" and h: "length h = 20"
    by auto
  define addr where "addr = EncodeBase58Check_spec sha256 (pk @ h)"
  have E: "ExtractDestination (spec_library sha256) s params [] = (True, [addr])"
    by (simp add: ExtractDestination_def S spec_library_def addr_def pk_def h)
  from route have r: "ToLower (take (length (bech32_hrp params)) addr) \<noteq> bech32_hrp params"
    by (simp add: E is_bech32_def)
  from pre h have "length (pk @ h) \<le> 21" by (simp add: pk_def)
  from DecodeBase58Check_EncodeBase58Check [OF this]
  have D: "DecodeBase58Check_spec sha256 addr 21 = Some (pk @ h)" by (simp add: addr_def)
  have "DecodeDestination (spec_library sha256) addr [] params
          = (True, [OP_DUP, OP_HASH160, 20] @ h @ [OP_EQUALVERIFY, OP_CHECKSIG], [])"
    using r
    by (simp add: DecodeDestination_def spec_library_def D Let_def h vector_insert_def
          EncodePushBytes_N_def flip: pk_def)
  with s E show ?thesis by simp
qed

lemma roundtrip_SCRIPTHASH:
  assumes kind: "fst (Solver s) = SCRIPTHASH"
    and pre: "length (base58Prefixes params SCRIPT_ADDRESS) \<le> 1"
    and ne: "base58Prefixes params SCRIPT_ADDRESS \<noteq> base58Prefixes params PUBKEY_ADDRESS"
    and route: "\<not> is_bech32 params (hd (snd (ExtractDestination (spec_library sha256) s params [])))"
  shows "\<exists>addr. ExtractDestination (spec_library sha256) s params [] = (True, [addr])
           \<and> DecodeDestination (spec_library sha256) addr [] params = (True, s, [])"
proof -
  define pk where "pk = base58Prefixes params PUBKEY_ADDRESS"
  define sp where "sp = base58Prefixes params SCRIPT_ADDRESS"
  define h where "h = take 20 (drop 2 s)"
  from Solver_SCRIPTHASH [OF kind]
  have p: "IsPayToScriptHash s" and S: "Solver s = (SCRIPTHASH, [h])" by (auto simp: h_def)
  from IsPayToScriptHash_script [OF p]
  have s: "s = [OP_HASH160, 20] @ h @ [OP_EQUAL]" and h: "length h = 20"
    by (auto simp: h_def)
  define addr where "addr = EncodeBase58Check_spec sha256 (sp @ h)"
  have E: "ExtractDestination (spec_library sha256) s params [] = (True, [addr])"
    by (simp add: ExtractDestination_def S spec_library_def addr_def sp_def h)
  from route have r: "ToLower (take (length (bech32_hrp params)) addr) \<noteq> bech32_hrp params"
    by (simp add: E is_bech32_def)
  from pre h have "length (sp @ h) \<le> 21" by (simp add: sp_def)
  from DecodeBase58Check_EncodeBase58Check [OF this]
  have D: "DecodeBase58Check_spec sha256 addr 21 = Some (sp @ h)" by (simp add: addr_def)
  from ne have nopk: "\<not> (length sp = length pk \<and> take (length pk) (sp @ h) = pk)"
    by (auto simp: sp_def pk_def)
  have "DecodeDestination (spec_library sha256) addr [] params
          = (True, [OP_HASH160, 20] @ h @ [OP_EQUAL], [])"
    using r nopk
    by (simp add: DecodeDestination_def spec_library_def D Let_def h vector_insert_def
          EncodePushBytes_N_def flip: pk_def sp_def)
  with s E show ?thesis by simp
qed


lemma is_bech32_Encode:
  assumes "\<not> list_ex is_upper (bech32_hrp params)"
  shows "ToLower (take (length (bech32_hrp params))
                    (bech32_Encode_spec enc (bech32_hrp params) values)) = bech32_hrp params"
  using assms by (simp add: bech32_Encode_spec_def ToLower_no_upper)

lemma roundtrip_witness_program:
  assumes np: "\<not> IsPayToScriptHash s" and wp: "IsWitnessProgram s = Some (v, p)"
    and kind: "(v = 0 \<and> (length p = 20 \<or> length p = 32)) \<or> (v = 1 \<and> length p = 32)"
    and ok: "bech32_hrp_ok (bech32_hrp params) (1 + (8 * length p + 4) div 5)"
  shows "\<exists>addr. ExtractDestination (spec_library sha256) s params [] = (True, [addr])
           \<and> DecodeDestination (spec_library sha256) addr [] params = (True, s, [])"
proof -
  define hrp where "hrp = bech32_hrp params"
  define enc where "enc = (if v = 0 then BECH32 else BECH32M)"
  define ver :: byte where "ver = of_nat v"
  from ConvertBits_push_roundtrip [of "[ver]" p] obtain syms
    where c85: "ConvertBits_push 8 5 True [ver] p = (True, [ver] @ syms)"
      and c58: "ConvertBits_push 5 8 False [] syms = (True, p)"
      and syms: "list_all (\<lambda>s. unat s < 32) syms"
      and lsyms: "length syms = (8 * length p + 4) div 5"
    by blast
  define addr where "addr = bech32_Encode_spec enc hrp (ver # syms)"
  from kind have ver: "ver = 0 \<or> ver = 1" "unat ver = v" by (auto simp: ver_def)
  have S: "Solver s = (if v = 0 \<and> length p = 20 then (WITNESS_V0_KEYHASH, [p])
                       else if v = 0 \<and> length p = 32 then (WITNESS_V0_SCRIPTHASH, [p])
                       else (WITNESS_V1_TAPROOT, [p]))"
    using kind by (auto simp: Solver_of_witness_program [OF np wp])
  have E: "ExtractDestination (spec_library sha256) s params [] = (True, [addr])"
    using kind c85
    by (auto simp: ExtractDestination_def S spec_library_def addr_def hrp_def enc_def ver_def)
  from ok have h: "hrp \<noteq> []" "list_all hrp_char hrp" "\<not> list_ex is_upper hrp"
      "length hrp + length (ver # syms) \<le> 83"
    by (auto simp: bech32_hrp_ok_def hrp_def lsyms)
  have encs: "enc = BECH32 \<or> enc = BECH32M" by (simp add: enc_def)
  from syms ver have all: "list_all (\<lambda>v. unat v < 32) (ver # syms)" by auto
  have dec: "bech32_Decode_spec addr
               = \<lparr>dec_encoding = enc, dec_hrp = hrp, dec_data = ver # syms\<rparr>"
    unfolding addr_def by (rule bech32_Decode_Encode [OF encs h(1,2,3) all h(4)])
  have rt: "ToLower (take (length hrp) addr) = hrp"
    unfolding addr_def hrp_def using h(3) by (simp add: is_bech32_Encode hrp_def)
  have "DecodeDestination (spec_library sha256) addr [] params
          = (True, [EncodeOP_N v, of_nat (length p)] @ p, [])"
    using kind ver
    by (auto simp: DecodeDestination_def DecodeDestination_bech32_def spec_library_def dec rt
          c58 enc_def Let_def size_defs vector_insert_def EncodePushBytes_N_def EncodeOP_N_def
          opcode_defs simp flip: hrp_def)
  with IsWitnessProgram_script [OF wp] E show ?thesis by simp
qed

text \<open>
  Claim C1, with the conditions that the code needs. For every script s that Solver
  classifies as PUBKEYHASH, SCRIPTHASH, WITNESS_V0_KEYHASH, WITNESS_V0_SCRIPTHASH or
  WITNESS_V1_TAPROOT, and every parameter set that satisfies \<open>roundtrip_params\<close> for the
  kind (Base58 prefixes of at most one byte, the SCRIPT prefix other than the PUBKEY
  prefix, a Base58 address that does not begin with the hrp in any letter case; an hrp
  that is not empty, printable, without uppercase letters and of at most 50 characters
  for a 20-byte program, 30 for a 32-byte program): ExtractDestination, called with an
  empty address list, returns true with exactly one address, and DecodeDestination,
  called on that address with an empty script and the same parameters, returns true
  with a script equal to s and an empty error text. The library is the one of the spec,
  for any hash function in the place of SHA-256. Stated for every parameter set, the
  claim fails, as the theorem after the next shows.
\<close>

theorem ExtractDestination_DecodeDestination_roundtrip:
  assumes kind: "fst (Solver s) \<in> {PUBKEYHASH, SCRIPTHASH, WITNESS_V0_KEYHASH,
                                     WITNESS_V0_SCRIPTHASH, WITNESS_V1_TAPROOT}"
    and ok: "roundtrip_params (fst (Solver s)) params
               (hd (snd (ExtractDestination (spec_library sha256) s params [])))"
  shows "\<exists>addr. ExtractDestination (spec_library sha256) s params [] = (True, [addr])
           \<and> DecodeDestination (spec_library sha256) addr [] params = (True, s, [])"
proof -
  consider (pkh) "fst (Solver s) = PUBKEYHASH" | (sh) "fst (Solver s) = SCRIPTHASH"
    | (w) "fst (Solver s) \<in> {WITNESS_V0_KEYHASH, WITNESS_V0_SCRIPTHASH, WITNESS_V1_TAPROOT}"
    using kind by auto
  then show ?thesis
  proof cases
    case pkh
    with ok show ?thesis
      by (intro roundtrip_PUBKEYHASH) (simp_all add: roundtrip_params_def)
  next
    case sh
    with ok show ?thesis
      by (intro roundtrip_SCRIPTHASH) (simp_all add: roundtrip_params_def)
  next
    case w
    from Solver_witness_program [OF w] obtain v p
      where np: "\<not> IsPayToScriptHash s" and wp: "IsWitnessProgram s = Some (v, p)" by blast
    note S = Solver_of_witness_program [OF np wp]
    from w S have k: "(v = 0 \<and> (length p = 20 \<or> length p = 32)) \<or> (v = 1 \<and> length p = 32)"
      by (auto split: if_splits)
    from w S ok k have "bech32_hrp_ok (bech32_hrp params) (1 + (8 * length p + 4) div 5)"
      by (auto simp: roundtrip_params_def split: if_splits)
    from roundtrip_witness_program [OF np wp k this] show ?thesis .
  qed
qed

text \<open>
  The round trip at two scripts of the spec with the parameters of the main network:
  the P2WPKH script 00 14 751e...3bd6 and the P2PKH script 76 a9 14 62e9...8f18 88 ac,
  whose Base58 address begins with the character 1 (the prefix is the byte 0) and so is
  not taken for a Bech32 address.
\<close>

lemma EncodeBase58Check_spec_leading_zero:
  "\<exists>t. EncodeBase58Check_spec sha256 (0 # xs) = CHR ''1'' # t"
  by (simp add: EncodeBase58Check_spec_def EncodeBase58_spec_def)

theorem ExtractDestination_DecodeDestination_roundtrip_witness:
  "(fst (Solver [0x00, 0x14, 0x75, 0x1e, 0x76, 0xe8, 0x19, 0x91, 0x96, 0xd4, 0x54, 0x94,
                0x1c, 0x45, 0xd1, 0xb3, 0xa3, 0x23, 0xf1, 0x43, 0x3b, 0xd6])
     = WITNESS_V0_KEYHASH
   \<and> bech32_hrp_ok (bech32_hrp mainnet_params) 33
   \<and> (\<exists>addr.
         ExtractDestination (spec_library (\<lambda>x. 0))
           [0x00, 0x14, 0x75, 0x1e, 0x76, 0xe8, 0x19, 0x91, 0x96, 0xd4, 0x54, 0x94,
            0x1c, 0x45, 0xd1, 0xb3, 0xa3, 0x23, 0xf1, 0x43, 0x3b, 0xd6] mainnet_params []
           = (True, [addr])
         \<and> DecodeDestination (spec_library (\<lambda>x. 0)) addr [] mainnet_params
           = (True,
              [0x00, 0x14, 0x75, 0x1e, 0x76, 0xe8, 0x19, 0x91, 0x96, 0xd4, 0x54, 0x94,
               0x1c, 0x45, 0xd1, 0xb3, 0xa3, 0x23, 0xf1, 0x43, 0x3b, 0xd6], [])))
   \<and> (fst (Solver [0x76, 0xa9, 0x14, 0x62, 0xe9, 0x07, 0xb1, 0x5c, 0xbf, 0x27, 0xd5, 0x42, 0x53,
                0x99, 0xeb, 0xf6, 0xf0, 0xfb, 0x50, 0xeb, 0xb8, 0x8f, 0x18, 0x88, 0xac])
     = PUBKEYHASH
   \<and> length (base58Prefixes mainnet_params PUBKEY_ADDRESS) \<le> 1
   \<and> \<not> is_bech32 mainnet_params
          (hd (snd (ExtractDestination (spec_library (\<lambda>x. 0))
             [0x76, 0xa9, 0x14, 0x62, 0xe9, 0x07, 0xb1, 0x5c, 0xbf, 0x27, 0xd5, 0x42, 0x53,
              0x99, 0xeb, 0xf6, 0xf0, 0xfb, 0x50, 0xeb, 0xb8, 0x8f, 0x18, 0x88, 0xac]
             mainnet_params [])))
   \<and> (\<exists>addr.
         ExtractDestination (spec_library (\<lambda>x. 0))
           [0x76, 0xa9, 0x14, 0x62, 0xe9, 0x07, 0xb1, 0x5c, 0xbf, 0x27, 0xd5, 0x42, 0x53,
            0x99, 0xeb, 0xf6, 0xf0, 0xfb, 0x50, 0xeb, 0xb8, 0x8f, 0x18, 0x88, 0xac]
           mainnet_params [] = (True, [addr])
         \<and> DecodeDestination (spec_library (\<lambda>x. 0)) addr [] mainnet_params
           = (True,
              [0x76, 0xa9, 0x14, 0x62, 0xe9, 0x07, 0xb1, 0x5c, 0xbf, 0x27, 0xd5, 0x42, 0x53,
               0x99, 0xeb, 0xf6, 0xf0, 0xfb, 0x50, 0xeb, 0xb8, 0x8f, 0x18, 0x88, 0xac], [])))"
proof -
  let ?w = "[0x00, 0x14, 0x75, 0x1e, 0x76, 0xe8, 0x19, 0x91, 0x96, 0xd4, 0x54, 0x94,
             0x1c, 0x45, 0xd1, 0xb3, 0xa3, 0x23, 0xf1, 0x43, 0x3b, 0xd6] :: byte list"
  have wk: "fst (Solver ?w) = WITNESS_V0_KEYHASH" by code_simp
  have wh: "bech32_hrp_ok (bech32_hrp mainnet_params) 33"
    by (simp add: bech32_hrp_ok_def mainnet_params_def hrp_char_def is_upper_def)
  from wk wh have "roundtrip_params (fst (Solver ?w)) mainnet_params
       (hd (snd (ExtractDestination (spec_library (\<lambda>x. 0)) ?w mainnet_params [])))"
    by (simp add: roundtrip_params_def)
  from ExtractDestination_DecodeDestination_roundtrip [OF _ this] wk wh
  have W: "fst (Solver [0x00, 0x14, 0x75, 0x1e, 0x76, 0xe8, 0x19, 0x91, 0x96, 0xd4, 0x54, 0x94,
                0x1c, 0x45, 0xd1, 0xb3, 0xa3, 0x23, 0xf1, 0x43, 0x3b, 0xd6])
     = WITNESS_V0_KEYHASH
   \<and> bech32_hrp_ok (bech32_hrp mainnet_params) 33
   \<and> (\<exists>addr.
         ExtractDestination (spec_library (\<lambda>x. 0))
           [0x00, 0x14, 0x75, 0x1e, 0x76, 0xe8, 0x19, 0x91, 0x96, 0xd4, 0x54, 0x94,
            0x1c, 0x45, 0xd1, 0xb3, 0xa3, 0x23, 0xf1, 0x43, 0x3b, 0xd6] mainnet_params []
           = (True, [addr])
         \<and> DecodeDestination (spec_library (\<lambda>x. 0)) addr [] mainnet_params
           = (True,
              [0x00, 0x14, 0x75, 0x1e, 0x76, 0xe8, 0x19, 0x91, 0x96, 0xd4, 0x54, 0x94,
               0x1c, 0x45, 0xd1, 0xb3, 0xa3, 0x23, 0xf1, 0x43, 0x3b, 0xd6], []))" by simp

  define s :: "byte list" where
    "s = [0x76, 0xa9, 0x14, 0x62, 0xe9, 0x07, 0xb1, 0x5c, 0xbf, 0x27, 0xd5, 0x42, 0x53,
          0x99, 0xeb, 0xf6, 0xf0, 0xfb, 0x50, 0xeb, 0xb8, 0x8f, 0x18, 0x88, 0xac]"
  define h :: "byte list" where
    "h = [0x62, 0xe9, 0x07, 0xb1, 0x5c, 0xbf, 0x27, 0xd5, 0x42, 0x53,
          0x99, 0xeb, 0xf6, 0xf0, 0xfb, 0x50, 0xeb, 0xb8, 0x8f, 0x18]"
  have S: "Solver s = (PUBKEYHASH, [h])" unfolding s_def h_def by code_simp
  have pre: "base58Prefixes mainnet_params PUBKEY_ADDRESS = [0]"
    by (simp add: mainnet_params_def)
  have E: "ExtractDestination (spec_library (\<lambda>x. 0)) s mainnet_params []
             = (True, [EncodeBase58Check_spec (\<lambda>x. 0) (0 # h)])"
    by (simp add: ExtractDestination_def S spec_library_def pre) (simp add: h_def)
  from EncodeBase58Check_spec_leading_zero [of "\<lambda>x. 0" h] obtain t
    where t: "EncodeBase58Check_spec (\<lambda>x. 0) (0 # h) = CHR ''1'' # t" by blast
  have r: "\<not> is_bech32 mainnet_params
             (hd (snd (ExtractDestination (spec_library (\<lambda>x. 0)) s mainnet_params [])))"
  proof -
    have a: "hd (snd (ExtractDestination (spec_library (\<lambda>x. 0)) s mainnet_params []))
               = CHR ''1'' # t"
      by (simp add: E t)
    have b: "bech32_hrp mainnet_params = ''bc''" by (simp add: mainnet_params_def)
    show ?thesis
      unfolding a is_bech32_def b by (simp add: ToLower_def LowerCase_def)
  qed
  from S pre r have "roundtrip_params (fst (Solver s)) mainnet_params
       (hd (snd (ExtractDestination (spec_library (\<lambda>x. 0)) s mainnet_params [])))"
    by (simp add: roundtrip_params_def)
  from ExtractDestination_DecodeDestination_roundtrip [OF _ this] S pre r
  have K: "fst (Solver [0x76, 0xa9, 0x14, 0x62, 0xe9, 0x07, 0xb1, 0x5c, 0xbf, 0x27, 0xd5, 0x42, 0x53,
                0x99, 0xeb, 0xf6, 0xf0, 0xfb, 0x50, 0xeb, 0xb8, 0x8f, 0x18, 0x88, 0xac])
     = PUBKEYHASH
   \<and> length (base58Prefixes mainnet_params PUBKEY_ADDRESS) \<le> 1
   \<and> \<not> is_bech32 mainnet_params
          (hd (snd (ExtractDestination (spec_library (\<lambda>x. 0))
             [0x76, 0xa9, 0x14, 0x62, 0xe9, 0x07, 0xb1, 0x5c, 0xbf, 0x27, 0xd5, 0x42, 0x53,
              0x99, 0xeb, 0xf6, 0xf0, 0xfb, 0x50, 0xeb, 0xb8, 0x8f, 0x18, 0x88, 0xac]
             mainnet_params [])))
   \<and> (\<exists>addr.
         ExtractDestination (spec_library (\<lambda>x. 0))
           [0x76, 0xa9, 0x14, 0x62, 0xe9, 0x07, 0xb1, 0x5c, 0xbf, 0x27, 0xd5, 0x42, 0x53,
            0x99, 0xeb, 0xf6, 0xf0, 0xfb, 0x50, 0xeb, 0xb8, 0x8f, 0x18, 0x88, 0xac]
           mainnet_params [] = (True, [addr])
         \<and> DecodeDestination (spec_library (\<lambda>x. 0)) addr [] mainnet_params
           = (True,
              [0x76, 0xa9, 0x14, 0x62, 0xe9, 0x07, 0xb1, 0x5c, 0xbf, 0x27, 0xd5, 0x42, 0x53,
               0x99, 0xeb, 0xf6, 0xf0, 0xfb, 0x50, 0xeb, 0xb8, 0x8f, 0x18, 0x88, 0xac], []))" unfolding s_def by simp
  from W K show ?thesis by (rule conjI)
qed

text \<open>
  The claim C1 as the spec states it, for every parameter set, fails. With the
  parameters of the main network and an hrp of 31 characters, the P2WSH script of the
  spec (00 20 and a 32-byte program) is classified WITNESS_V0_SCRIPTHASH and
  ExtractDestination returns true with an address of 31 + 1 + 53 + 6 = 91 characters;
  the Bech32 decoder rejects a text of more than 90 characters, so DecodeDestination
  returns false on it with the error text "Invalid address".
\<close>

theorem ExtractDestination_DecodeDestination_long_hrp:
  "fst (Solver [0x00, 0x20, 0x18, 0x63, 0x14, 0x3c, 0x14, 0xc5, 0x16, 0x68, 0x04, 0xbd,
                0x19, 0x20, 0x33, 0x56, 0xda, 0x13, 0x6c, 0x98, 0x56, 0x78, 0xcd, 0x4d,
                0x27, 0xa1, 0xb8, 0xc6, 0x32, 0x96, 0x04, 0x90, 0x32, 0x62])
     = WITNESS_V0_SCRIPTHASH
   \<and> fst (ExtractDestination (spec_library (\<lambda>x. 0))
            [0x00, 0x20, 0x18, 0x63, 0x14, 0x3c, 0x14, 0xc5, 0x16, 0x68, 0x04, 0xbd,
             0x19, 0x20, 0x33, 0x56, 0xda, 0x13, 0x6c, 0x98, 0x56, 0x78, 0xcd, 0x4d,
             0x27, 0xa1, 0xb8, 0xc6, 0x32, 0x96, 0x04, 0x90, 0x32, 0x62]
            (mainnet_params\<lparr>bech32_hrp := ''aaaaaaaaaaaaaaaaaaaaaaaaaaaaaaa''\<rparr>) [])
   \<and> length (hd (snd (ExtractDestination (spec_library (\<lambda>x. 0))
            [0x00, 0x20, 0x18, 0x63, 0x14, 0x3c, 0x14, 0xc5, 0x16, 0x68, 0x04, 0xbd,
             0x19, 0x20, 0x33, 0x56, 0xda, 0x13, 0x6c, 0x98, 0x56, 0x78, 0xcd, 0x4d,
             0x27, 0xa1, 0xb8, 0xc6, 0x32, 0x96, 0x04, 0x90, 0x32, 0x62]
            (mainnet_params\<lparr>bech32_hrp := ''aaaaaaaaaaaaaaaaaaaaaaaaaaaaaaa''\<rparr>) []))) = 91
   \<and> DecodeDestination (spec_library (\<lambda>x. 0))
         (hd (snd (ExtractDestination (spec_library (\<lambda>x. 0))
            [0x00, 0x20, 0x18, 0x63, 0x14, 0x3c, 0x14, 0xc5, 0x16, 0x68, 0x04, 0xbd,
             0x19, 0x20, 0x33, 0x56, 0xda, 0x13, 0x6c, 0x98, 0x56, 0x78, 0xcd, 0x4d,
             0x27, 0xa1, 0xb8, 0xc6, 0x32, 0x96, 0x04, 0x90, 0x32, 0x62]
            (mainnet_params\<lparr>bech32_hrp := ''aaaaaaaaaaaaaaaaaaaaaaaaaaaaaaa''\<rparr>) [])))
         [] (mainnet_params\<lparr>bech32_hrp := ''aaaaaaaaaaaaaaaaaaaaaaaaaaaaaaa''\<rparr>)
       = (False, [], ''Invalid address'')"
proof -
  define s :: "byte list" where
    "s = [0x00, 0x20, 0x18, 0x63, 0x14, 0x3c, 0x14, 0xc5, 0x16, 0x68, 0x04, 0xbd,
          0x19, 0x20, 0x33, 0x56, 0xda, 0x13, 0x6c, 0x98, 0x56, 0x78, 0xcd, 0x4d,
          0x27, 0xa1, 0xb8, 0xc6, 0x32, 0x96, 0x04, 0x90, 0x32, 0x62]"
  define hrp where "hrp = ''aaaaaaaaaaaaaaaaaaaaaaaaaaaaaaa''"
  define P where "P = mainnet_params\<lparr>bech32_hrp := hrp\<rparr>"
  define p where "p = drop 2 s"
  have lp: "length p = 32" by (simp add: p_def s_def)
  have lh: "length hrp = 31" by (simp add: hrp_def)
  have up: "\<not> list_ex is_upper hrp" by (simp add: hrp_def is_upper_def)
  have hP: "bech32_hrp P = hrp" by (simp add: P_def)
  have S: "Solver s = (WITNESS_V0_SCRIPTHASH, [p])" unfolding p_def s_def by code_simp
  from ConvertBits_push_roundtrip [of "[0]" p] obtain syms
    where c85: "ConvertBits_push 8 5 True [0] p = (True, [0] @ syms)"
      and lsyms: "length syms = (8 * length p + 4) div 5"
    by blast
  define addr where "addr = bech32_Encode_spec BECH32 hrp (0 # syms)"
  have E: "ExtractDestination (spec_library (\<lambda>x. 0)) s P [] = (True, [addr])"
    by (simp add: ExtractDestination_def S spec_library_def c85 addr_def hP)
  have la: "length addr = 91"
    by (simp add: addr_def length_bech32_Encode_spec lh lsyms lp)
  have rt: "ToLower (take (length (bech32_hrp P)) addr) = bech32_hrp P"
    unfolding addr_def using is_bech32_Encode [of P BECH32 "0 # syms"] up by (simp add: hP)
  from la have dec: "bech32_Decode_spec addr = bech32_invalid"
    by (intro bech32_Decode_spec_too_long) simp
  have D: "DecodeDestination (spec_library (\<lambda>x. 0)) addr [] P = (False, [], ''Invalid address'')"
    by (simp add: DecodeDestination_def DecodeDestination_bech32_def spec_library_def rt dec
          bech32_invalid_def)
  from S E la D show ?thesis
    unfolding s_def hrp_def P_def by simp
qed


text \<open>
  The conditions on the Base58 prefixes are needed as well. When the SCRIPT prefix is
  the PUBKEY prefix, the address of a P2SH script decodes to the P2PKH script of the
  same hash, because DecodeDestination tests the PUBKEY prefix first. When the PUBKEY
  prefix has more than one byte, the address of a P2PKH script carries more than the 21
  bytes that DecodeDestination asks DecodeBase58Check for, and is rejected.
\<close>

lemma roundtrip_needs_distinct_prefixes:
  assumes kind: "fst (Solver s) = SCRIPTHASH"
    and pre: "length (base58Prefixes params SCRIPT_ADDRESS) \<le> 1"
    and eq: "base58Prefixes params SCRIPT_ADDRESS = base58Prefixes params PUBKEY_ADDRESS"
    and route: "\<not> is_bech32 params (hd (snd (ExtractDestination (spec_library sha256) s params [])))"
  shows "\<exists>addr h. ExtractDestination (spec_library sha256) s params [] = (True, [addr])
           \<and> s = [OP_HASH160, 20] @ h @ [OP_EQUAL]
           \<and> DecodeDestination (spec_library sha256) addr [] params
               = (True, [OP_DUP, OP_HASH160, 20] @ h @ [OP_EQUALVERIFY, OP_CHECKSIG], [])"
proof -
  define pk where "pk = base58Prefixes params PUBKEY_ADDRESS"
  define h where "h = take 20 (drop 2 s)"
  from Solver_SCRIPTHASH [OF kind]
  have p: "IsPayToScriptHash s" and S: "Solver s = (SCRIPTHASH, [h])" by (auto simp: h_def)
  from IsPayToScriptHash_script [OF p]
  have s: "s = [OP_HASH160, 20] @ h @ [OP_EQUAL]" and h: "length h = 20"
    by (auto simp: h_def)
  define addr where "addr = EncodeBase58Check_spec sha256 (pk @ h)"
  have E: "ExtractDestination (spec_library sha256) s params [] = (True, [addr])"
    by (simp add: ExtractDestination_def S spec_library_def addr_def pk_def h eq)
  from route have r: "ToLower (take (length (bech32_hrp params)) addr) \<noteq> bech32_hrp params"
    by (simp add: E is_bech32_def)
  from pre h have "length (pk @ h) \<le> 21" by (simp add: pk_def eq)
  from DecodeBase58Check_EncodeBase58Check [OF this]
  have D: "DecodeBase58Check_spec sha256 addr 21 = Some (pk @ h)" by (simp add: addr_def)
  have "DecodeDestination (spec_library sha256) addr [] params
          = (True, [OP_DUP, OP_HASH160, 20] @ h @ [OP_EQUALVERIFY, OP_CHECKSIG], [])"
    using r
    by (simp add: DecodeDestination_def spec_library_def D Let_def h vector_insert_def
          EncodePushBytes_N_def flip: pk_def)
  with s E show ?thesis by blast
qed

lemma roundtrip_needs_short_prefix:
  assumes kind: "fst (Solver s) = PUBKEYHASH"
    and pre: "1 < length (base58Prefixes params PUBKEY_ADDRESS)"
    and route: "\<not> is_bech32 params (hd (snd (ExtractDestination (spec_library sha256) s params [])))"
  shows "\<exists>addr. ExtractDestination (spec_library sha256) s params [] = (True, [addr])
           \<and> \<not> fst (DecodeDestination (spec_library sha256) addr [] params)"
proof -
  define pk where "pk = base58Prefixes params PUBKEY_ADDRESS"
  obtain sols where "Solver s = (PUBKEYHASH, sols)" using kind by (cases "Solver s") auto
  from Solver_PUBKEYHASH [OF this] this obtain h
    where m: "MatchPayToPubkeyHash s = Some h" and S: "Solver s = (PUBKEYHASH, [h])" by auto
  from MatchPayToPubkeyHash_script [OF m] have h: "length h = 20" by auto
  define addr where "addr = EncodeBase58Check_spec sha256 (pk @ h)"
  have E: "ExtractDestination (spec_library sha256) s params [] = (True, [addr])"
    by (simp add: ExtractDestination_def S spec_library_def addr_def pk_def h)
  from route have r: "ToLower (take (length (bech32_hrp params)) addr) \<noteq> bech32_hrp params"
    by (simp add: E is_bech32_def)
  from pre h have "21 < length (pk @ h)" by (simp add: pk_def)
  from DecodeBase58Check_too_long [OF this]
  have D: "DecodeBase58Check_spec sha256 addr 21 = None" by (simp add: addr_def)
  have "\<not> fst (DecodeDestination (spec_library sha256) addr [] params)"
    using r
    by (simp add: DecodeDestination_def spec_library_def D split: option.splits)
  with E show ?thesis by blast
qed

end
